theory Spec2Isabelle
  imports Complex_Main
begin

section \<open>Constants\<close>

text \<open>
  The values of \<^verbatim>\<open>config/constants.ts\<close> and the three private constants of
  \<^verbatim>\<open>RouteManager.ts\<close>. JavaScript numbers are modelled as \<open>int\<close> where the program
  only ever stores whole numbers (grid coordinates, counters) and as \<open>real\<close> where it
  stores positions, times and money.
\<close>

definition GRID_SIZE :: int where "GRID_SIZE = 30"
definition COLS :: int where "COLS = 60"
definition ROWS :: int where "ROWS = 60"
definition MAX_ROUTES :: nat where "MAX_ROUTES = 8"
definition PATH_CACHE_SIZE :: nat where "PATH_CACHE_SIZE = 500"
definition ROUTE_COST :: real where "ROUTE_COST = 500"
definition STOP_COST :: real where "STOP_COST = 100"
definition BUS_COST :: real where "BUS_COST = 300"
definition NPC_MAX_WAIT_TIME :: real where "NPC_MAX_WAIT_TIME = 60"
definition MAX_TRANSFERS :: int where "MAX_TRANSFERS = 5"
definition BUS_CAPACITY :: nat where "BUS_CAPACITY = 10"

definition ROUTE_COLORS :: "string list" where
  "ROUTE_COLORS = [''#ff4444'', ''#44ff44'', ''#4444ff'', ''#ffff44'',
                   ''#ff44ff'', ''#44ffff'', ''#ff8844'', ''#8844ff'']"

section \<open>Data model\<close>

text \<open>
  \<^verbatim>\<open>types/entities.ts\<close>, \<^verbatim>\<open>types/city.ts\<close> and \<^verbatim>\<open>types/game.ts\<close>. Field names are
  the source's, with a prefix where two interfaces share a name (\<open>x\<close>, \<open>y\<close>, \<open>stops\<close>,
  \<open>routes\<close>, \<open>path\<close>, \<open>state\<close>). An optional field is an \<open>option\<close>.

  An NPC is an object that both \<^verbatim>\<open>state.npcs\<close> and a bus's \<^verbatim>\<open>passengers\<close> array
  refer to, and the program mutates it through either reference. The model therefore keeps
  the objects in a store, \<open>npc_heap\<close>, and the two arrays hold references (\<open>npc_ref\<close>).
  Stops are compared by coordinates everywhere in the modelled code, so a stop is a value.
  Fields that no modelled function reads or writes (\<^verbatim>\<open>id\<close>, \<^verbatim>\<open>name\<close>, \<^verbatim>\<open>originZone\<close>,
  the zone's \<^verbatim>\<open>type\<close> and \<^verbatim>\<open>sprite\<close>, traffic, time of day, the cache entry's
  \<^verbatim>\<open>timestamp\<close>) are left out.
\<close>

datatype ZoneType = EMPTY | ROAD | RESIDENTIAL | COMMERCIAL | INDUSTRIAL

type_synonym CityGrid = "ZoneType list list"

record Stop =
  stop_x :: int
  stop_y :: int

record Waypoint =
  wp_x :: real
  wp_y :: real

record Zone =
  zone_x :: real
  zone_y :: real
  zone_w :: real
  zone_h :: real

datatype NPCState = walking | waiting | traveling | arrived

record PlannedRoute =
  plan_stops :: "Stop list"
  plan_routes :: "nat list"
  plan_currentStopIndex :: nat

record NPC =
  npc_x :: real
  npc_y :: real
  npc_state :: NPCState
  waitTime :: real
  transportStartTime :: "real option"
  nearestStop :: "Stop option"
  atStop :: bool
  destinationZone :: Zone
  destinationStop :: "Stop option"
  finalDestinationStop :: "Stop option"
  transferCount :: int
  maxTransfersWarned :: bool
  walkingPath :: "Waypoint list option"
  walkingPathIndex :: "nat option"
  plannedRoute :: "PlannedRoute option"

type_synonym npc_ref = nat

record Bus =
  bus_x :: real
  bus_y :: real
  currentStopIndex :: nat
  passengers :: "npc_ref list"
  bus_path :: "Waypoint list"
  pathIndex :: nat
  angle :: real
  stoppedAtStop :: bool
  stopTimer :: real
  currentSpeed :: real

record Route =
  stops :: "Stop list"
  buses :: "Bus list"
  color :: string

record GameStats =
  tripsCompleted :: nat
  totalWaitTime :: real
  totalTransportTime :: real
  npcsGaveUp :: nat
  busUtilizationSamples :: nat
  totalBusUtilization :: real

record Economics =
  money :: real
  totalIncome :: real
  totalExpenses :: real
  totalCapitalInvested :: real
  ticketPrice :: real

record GameState =
  routes :: "Route list"
  activeRouteIndex :: nat
  npcs :: "npc_ref list"
  npc_heap :: "npc_ref \<Rightarrow> NPC"
  stats :: GameStats
  economics :: Economics
  time :: real
  selectedStopIndex :: "nat option"

section \<open>SpatialIndex\<close>

text \<open>
  \<^verbatim>\<open>stopsByGridCell\<close> is a \<^verbatim>\<open>Map<string, Stop[]>\<close> keyed by the text \<^verbatim>\<open>"x,y"\<close> of a
  cell. Only \<^verbatim>\<open>get\<close> and \<^verbatim>\<open>set\<close> are used on it, so it is a partial map; the key
  of a cell with whole-number coordinates is the pair of them.
\<close>

type_synonym SpatialIndex = "int \<times> int \<Rightarrow> Stop list option"

definition stop_key :: "Stop \<Rightarrow> int \<times> int" where
  "stop_key s = (stop_x s, stop_y s)"

definition index_add :: "SpatialIndex \<Rightarrow> Stop \<Rightarrow> SpatialIndex" where
  "index_add m s =
     m(stop_key s \<mapsto> (case m (stop_key s) of None \<Rightarrow> [] | Some ss \<Rightarrow> ss) @ [s])"

definition rebuildIndex :: "Route list \<Rightarrow> SpatialIndex" where
  "rebuildIndex rs = fold (\<lambda>route m. fold (\<lambda>s m'. index_add m' s) (stops route) m) rs Map.empty"

section \<open>GameEngine: routes and buses\<close>

text \<open>
  \<^verbatim>\<open>GameEngine\<close> owns the game state and the spatial index. \<^verbatim>\<open>addRoute\<close>,
  \<^verbatim>\<open>addBusToRoute\<close>, \<^verbatim>\<open>removeBusFromRoute\<close>, \<^verbatim>\<open>deleteRoute\<close> and
  \<^verbatim>\<open>addStopToRoute\<close> are the only methods that change \<^verbatim>\<open>state.routes\<close> or a
  route's \<^verbatim>\<open>buses\<close>. Each takes the engine and returns it updated, with the method's
  return value where it has one. Console output is not modelled.
\<close>

record GameEngine =
  state :: GameState
  spatialIndex :: SpatialIndex

definition updateSpatialIndex :: "GameEngine \<Rightarrow> GameEngine" where
  "updateSpatialIndex e = e\<lparr>spatialIndex := rebuildIndex (routes (state e))\<rparr>"

definition newRouteBus :: Bus where
  "newRouteBus = \<lparr>bus_x = 0, bus_y = 0, currentStopIndex = 0, passengers = [], bus_path = [],
     pathIndex = 0, angle = 0, stoppedAtStop = False, stopTimer = 0, currentSpeed = 0\<rparr>"

definition pay :: "real \<Rightarrow> Economics \<Rightarrow> Economics" where
  "pay cost ec = ec\<lparr>money := money ec - cost,
                     totalCapitalInvested := totalCapitalInvested ec + cost\<rparr>"

definition addRoute :: "GameEngine \<Rightarrow> bool \<times> GameEngine" where
  "addRoute e =
     (let s = state e in
      if length (routes s) \<ge> MAX_ROUTES then (False, e)
      else let totalCost = ROUTE_COST + BUS_COST in
      if money (economics s) < totalCost then (False, e)
      else let colorIndex = length (routes s) mod length ROUTE_COLORS;
               s' = s\<lparr>economics := pay totalCost (economics s),
                      routes := routes s @
                        [\<lparr>stops = [], buses = [newRouteBus], color = ROUTE_COLORS ! colorIndex\<rparr>]\<rparr>
           in (True, updateSpatialIndex (e\<lparr>state := s'\<rparr>)))"

definition addBusToRoute :: "int \<Rightarrow> GameEngine \<Rightarrow> bool \<times> GameEngine" where
  "addBusToRoute routeIndex e =
     (let s = state e in
      if routeIndex < 0 \<or> routeIndex \<ge> int (length (routes s)) then (False, e)
      else let route = routes s ! nat routeIndex in
      if length (buses route) \<ge> 10 then (False, e)
      else if money (economics s) < BUS_COST then (False, e)
      else let busCount = length (buses route);
               stopCount = length (stops route);
               startStopIndex =
                 (if stopCount > 0
                  then (let i = (busCount * stopCount) div (busCount + 1)
                        in if i \<ge> stopCount then stopCount - 1 else i)
                  else 0);
               newBus =
                 (if startStopIndex < stopCount
                  then newRouteBus\<lparr>
                         bus_x := real_of_int (stop_x (stops route ! startStopIndex) * 30 + 15),
                         bus_y := real_of_int (stop_y (stops route ! startStopIndex) * 30 + 15),
                         currentStopIndex := startStopIndex\<rparr>
                  else newRouteBus\<lparr>currentStopIndex := startStopIndex\<rparr>);
               route' = route\<lparr>buses := buses route @ [newBus]\<rparr>
           in (True, e\<lparr>state := s\<lparr>economics := pay BUS_COST (economics s),
                                      routes := (routes s)[nat routeIndex := route']\<rparr>\<rparr>))"

text \<open>
  The loop of \<^verbatim>\<open>removeBusFromRoute\<close> over the removed bus's passengers: each one is
  an object of the store, written through its reference.
\<close>

definition returnToWaiting :: "NPC \<Rightarrow> NPC" where
  "returnToWaiting p = p\<lparr>npc_state := waiting, waitTime := 0, nearestStop := None,
     atStop := False, destinationStop := None, finalDestinationStop := None\<rparr>"

fun returnPassengers :: "npc_ref list \<Rightarrow> (npc_ref \<Rightarrow> NPC) \<Rightarrow> (npc_ref \<Rightarrow> NPC)" where
  "returnPassengers [] h = h"
| "returnPassengers (p # ps) h = returnPassengers ps (h(p := returnToWaiting (h p)))"

definition removeBusFromRoute :: "int \<Rightarrow> GameEngine \<Rightarrow> GameEngine" where
  "removeBusFromRoute routeIndex e =
     (let s = state e in
      if routeIndex < 0 \<or> routeIndex \<ge> int (length (routes s)) then e
      else let route = routes s ! nat routeIndex in
      if length (buses route) \<le> 1 then e
      else let removedBus = last (buses route);
               route' = route\<lparr>buses := butlast (buses route)\<rparr>
           in e\<lparr>state := s\<lparr>routes := (routes s)[nat routeIndex := route'],
                             npc_heap := returnPassengers (passengers removedBus) (npc_heap s)\<rparr>\<rparr>)"

text \<open>
  \<^verbatim>\<open>splice(activeRouteIndex, 1)\<close> removes nothing when the index is past the end.
\<close>

definition deleteRoute :: "GameEngine \<Rightarrow> GameEngine" where
  "deleteRoute e =
     (let s = state e in
      if length (routes s) = 0 then e
      else let rs = take (activeRouteIndex s) (routes s) @ drop (Suc (activeRouteIndex s)) (routes s);
               a = (if activeRouteIndex s \<ge> length rs \<and> length rs > 0
                    then length rs - 1 else activeRouteIndex s)
           in updateSpatialIndex
                (e\<lparr>state := s\<lparr>routes := rs, activeRouteIndex := a, selectedStopIndex := None\<rparr>\<rparr>))"

definition addStopToRoute :: "int \<Rightarrow> int \<Rightarrow> int \<Rightarrow> GameEngine \<Rightarrow> bool \<times> GameEngine" where
  "addStopToRoute routeIndex x y e =
     (let s = state e in
      if routeIndex < 0 \<or> routeIndex \<ge> int (length (routes s)) then (False, e)
      else let route = routes s ! nat routeIndex in
      if money (economics s) < STOP_COST then (False, e)
      else let route' = route\<lparr>stops := stops route @ [\<lparr>stop_x = x, stop_y = y\<rparr>]\<rparr>
           in (True, updateSpatialIndex
                 (e\<lparr>state := s\<lparr>economics := pay STOP_COST (economics s),
                                  routes := (routes s)[nat routeIndex := route']\<rparr>\<rparr>)))"

definition every_route_has_a_bus :: "GameEngine \<Rightarrow> bool" where
  "every_route_has_a_bus e = list_all (\<lambda>r. 1 \<le> length (buses r)) (routes (state e))"

subsection \<open>Sample data\<close>

definition zone0 :: Zone where
  "zone0 = \<lparr>zone_x = 10, zone_y = 10, zone_w = 4, zone_h = 4\<rparr>"

definition npc0 :: NPC where
  "npc0 = \<lparr>npc_x = 0, npc_y = 0, npc_state = walking, waitTime = 0, transportStartTime = None,
     nearestStop = None, atStop = False, destinationZone = zone0, destinationStop = None,
     finalDestinationStop = None, transferCount = 0, maxTransfersWarned = False,
     walkingPath = Some [], walkingPathIndex = Some 0, plannedRoute = None\<rparr>"

definition stats0 :: GameStats where
  "stats0 = \<lparr>tripsCompleted = 0, totalWaitTime = 0, totalTransportTime = 0, npcsGaveUp = 0,
     busUtilizationSamples = 0, totalBusUtilization = 0\<rparr>"

definition economics0 :: Economics where
  "economics0 = \<lparr>money = 5000, totalIncome = 0, totalExpenses = 0, totalCapitalInvested = 0,
     ticketPrice = 3 / 2\<rparr>"

definition state0 :: GameState where
  "state0 = \<lparr>routes = [], activeRouteIndex = 0, npcs = [], npc_heap = (\<lambda>_. npc0),
     stats = stats0, economics = economics0, time = 0, selectedStopIndex = None\<rparr>"

definition engine0 :: GameEngine where
  "engine0 = \<lparr>state = state0, spatialIndex = Map.empty\<rparr>"

definition stopA :: Stop where "stopA = \<lparr>stop_x = 2, stop_y = 3\<rparr>"
definition stopB :: Stop where "stopB = \<lparr>stop_x = 7, stop_y = 3\<rparr>"

definition traveller :: NPC where
  "traveller = npc0\<lparr>npc_state := traveling, nearestStop := Some stopA,
     destinationStop := Some stopB, finalDestinationStop := Some stopB\<rparr>"

definition bus_with :: "npc_ref list \<Rightarrow> Bus" where
  "bus_with ps = newRouteBus\<lparr>passengers := ps\<rparr>"

definition route_with :: "Bus list \<Rightarrow> Route" where
  "route_with bs = \<lparr>stops = [stopA, stopB], buses = bs, color = ''#ff4444''\<rparr>"

definition state_with :: "Bus list \<Rightarrow> GameState" where
  "state_with bs = state0\<lparr>routes := [route_with bs], npcs := [7],
     npc_heap := (\<lambda>_. npc0)(7 := traveller)\<rparr>"

text \<open>A route whose only bus carries NPC 7, and the same route with a second bus.\<close>

definition engine_sole :: GameEngine where
  "engine_sole = \<lparr>state = state_with [bus_with [7]],
     spatialIndex = rebuildIndex (routes (state_with [bus_with [7]]))\<rparr>"

definition engine_two :: GameEngine where
  "engine_two = \<lparr>state = state_with [bus_with [], bus_with [7]],
     spatialIndex = rebuildIndex (routes (state_with [bus_with [], bus_with [7]]))\<rparr>"

subsection \<open>Lemmas\<close>

lemma returnToWaiting_idem: "returnToWaiting (returnToWaiting p) = returnToWaiting p"
  by (simp add: returnToWaiting_def)

lemma returnPassengers_notin: "p \<notin> set ps \<Longrightarrow> returnPassengers ps h p = h p"
  by (induction ps arbitrary: h) auto

lemma returnPassengers_in: "p \<in> set ps \<Longrightarrow> returnPassengers ps h p = returnToWaiting (h p)"
proof (induction ps arbitrary: h)
  case Nil
  then show ?case by simp
next
  case (Cons a ps)
  show ?case
  proof (cases "p \<in> set ps")
    case True
    have "returnPassengers ps (h(a := returnToWaiting (h a))) p =
          returnToWaiting ((h(a := returnToWaiting (h a))) p)"
      by (rule Cons.IH [OF True])
    then show ?thesis by (cases "p = a") (simp_all add: returnToWaiting_idem)
  next
    case False
    with Cons.prems have "p = a" by simp
    with False show ?thesis by (simp add: returnPassengers_notin)
  qed
qed

lemma list_all_update: "list_all P xs \<Longrightarrow> P y \<Longrightarrow> list_all P (xs[i := y])"
  by (induction xs arbitrary: i) (auto split: nat.splits)

lemma every_route_addRoute:
  "every_route_has_a_bus e \<Longrightarrow> every_route_has_a_bus (snd (addRoute e))"
  by (simp add: every_route_has_a_bus_def addRoute_def updateSpatialIndex_def Let_def
      newRouteBus_def)

lemma every_route_addBus:
  "every_route_has_a_bus e \<Longrightarrow> every_route_has_a_bus (snd (addBusToRoute i e))"
  by (simp add: every_route_has_a_bus_def addBusToRoute_def Let_def list_all_update)

lemma every_route_removeBus:
  "every_route_has_a_bus e \<Longrightarrow> every_route_has_a_bus (removeBusFromRoute i e)"
  by (auto simp add: every_route_has_a_bus_def removeBusFromRoute_def Let_def
      intro!: list_all_update)

lemma every_route_deleteRoute:
  "every_route_has_a_bus e \<Longrightarrow> every_route_has_a_bus (deleteRoute e)"
  apply (auto simp add: every_route_has_a_bus_def deleteRoute_def Let_def updateSpatialIndex_def
      list_all_iff)
  by (meson in_set_takeD in_set_dropD)+

lemma every_route_addStop:
  "every_route_has_a_bus e \<Longrightarrow> every_route_has_a_bus (snd (addStopToRoute i x y e))"
  by (auto simp add: every_route_has_a_bus_def addStopToRoute_def Let_def updateSpatialIndex_def
      list_all_length nth_list_update)

lemma addRoute_one_bus:
  "fst (addRoute e) \<Longrightarrow>
   \<exists>r. routes (state (snd (addRoute e))) = routes (state e) @ [r] \<and> length (buses r) = 1"
  by (auto simp add: addRoute_def Let_def updateSpatialIndex_def split: if_splits)

lemma addBus_only_adds:
  "length (routes (state (snd (addBusToRoute i e)))) = length (routes (state e)) \<and>
   (\<forall>j < length (routes (state e)).
      length (buses (routes (state e) ! j))
        \<le> length (buses (routes (state (snd (addBusToRoute i e))) ! j)))"
  by (auto simp add: addBusToRoute_def Let_def nth_list_update)

lemma removeBus_last_bus_noop:
  "length (buses (routes (state e) ! nat i)) \<le> 1 \<Longrightarrow> removeBusFromRoute i e = e"
  by (simp add: removeBusFromRoute_def Let_def)

subsection \<open>Claims about buses of a route\<close>

text \<open>
  C10. Every route always contains at least one bus. Each of the five methods that change
  the routes keeps the property that every route has a bus; \<open>addRoute\<close>, when it succeeds,
  appends a route with exactly one bus and leaves the others alone; \<open>addBusToRoute\<close>
  never lowers the number of buses of any route; and \<open>removeBusFromRoute\<close> on a route
  with exactly one bus returns the engine unchanged.
\<close>

theorem every_route_keeps_a_bus:
  assumes "every_route_has_a_bus e"
  shows "every_route_has_a_bus (snd (addRoute e)) \<and>
         every_route_has_a_bus (snd (addBusToRoute i e)) \<and>
         every_route_has_a_bus (removeBusFromRoute i e) \<and>
         every_route_has_a_bus (deleteRoute e) \<and>
         every_route_has_a_bus (snd (addStopToRoute i x y e)) \<and>
         (fst (addRoute e) \<longrightarrow>
            (\<exists>r. routes (state (snd (addRoute e))) = routes (state e) @ [r] \<and>
                 length (buses r) = 1)) \<and>
         length (routes (state (snd (addBusToRoute i e)))) = length (routes (state e)) \<and>
         (\<forall>j < length (routes (state e)).
            length (buses (routes (state e) ! j))
              \<le> length (buses (routes (state (snd (addBusToRoute i e))) ! j))) \<and>
         (length (buses (routes (state e) ! nat i)) = 1 \<longrightarrow> removeBusFromRoute i e = e)"
proof -
  note a = assms
  have 1: "every_route_has_a_bus (snd (addRoute e))" by (rule every_route_addRoute [OF a])
  have 2: "every_route_has_a_bus (snd (addBusToRoute i e))" by (rule every_route_addBus [OF a])
  have 3: "every_route_has_a_bus (removeBusFromRoute i e)" by (rule every_route_removeBus [OF a])
  have 4: "every_route_has_a_bus (deleteRoute e)" by (rule every_route_deleteRoute [OF a])
  have 5: "every_route_has_a_bus (snd (addStopToRoute i x y e))"
    by (rule every_route_addStop [OF a])
  have 6: "length (buses (routes (state e) ! nat i)) = 1 \<longrightarrow> removeBusFromRoute i e = e"
    by (simp add: removeBus_last_bus_noop)
  from 1 2 3 4 5 6 addRoute_one_bus [of e] addBus_only_adds [of i e]
  show ?thesis by blast
qed

theorem every_route_keeps_a_bus_witness:
  "every_route_has_a_bus engine_sole \<and>
   fst (addRoute engine_sole) \<and>
   length (buses (routes (state engine_sole) ! nat 0)) = 1 \<and>
   every_route_has_a_bus (snd (addRoute engine_sole)) \<and>
   every_route_has_a_bus (snd (addBusToRoute 0 engine_sole)) \<and>
   every_route_has_a_bus (removeBusFromRoute 0 engine_sole) \<and>
   removeBusFromRoute 0 engine_sole = engine_sole"
proof -
  have h: "every_route_has_a_bus engine_sole"
    by (simp add: every_route_has_a_bus_def engine_sole_def state_with_def route_with_def
        state0_def bus_with_def)
  have f: "fst (addRoute engine_sole)"
    by (simp add: addRoute_def engine_sole_def state_with_def state0_def economics0_def
        MAX_ROUTES_def ROUTE_COST_def BUS_COST_def Let_def)
  have l: "length (buses (routes (state engine_sole) ! nat 0)) = 1"
    by (simp add: engine_sole_def state_with_def route_with_def state0_def)
  from h f l every_route_keeps_a_bus [OF h, of 0 0 0] show ?thesis by simp
qed

text \<open>
  C2, as stated, fails where the removed bus would be the route's only bus: the guard
  \<^verbatim>\<open>route.buses.length <= 1\<close> returns before anything is popped. On \<open>engine_sole\<close>,
  whose single bus carries NPC 7, the bus stays, NPC 7 stays on it in state
  \<open>traveling\<close> and keeps its stop reference.
\<close>

theorem removeBus_sole_bus_counterexample:
  "length (buses (routes (state engine_sole) ! 0)) = 1 \<and>
   passengers (buses (routes (state engine_sole) ! 0) ! 0) = [7] \<and>
   buses (routes (state (removeBusFromRoute 0 engine_sole)) ! 0)
     = buses (routes (state engine_sole) ! 0) \<and>
   npc_state (npc_heap (state (removeBusFromRoute 0 engine_sole)) 7) = traveling \<and>
   nearestStop (npc_heap (state (removeBusFromRoute 0 engine_sole)) 7) = Some stopA"
  by (simp add: removeBusFromRoute_def engine_sole_def state_with_def route_with_def
      state0_def bus_with_def traveller_def npc0_def Let_def)

text \<open>
  C2, amended. For a valid route index: when the route has two or more buses, the last
  bus is removed from it (the other routes and buses are untouched), every passenger of
  that bus is put in state \<open>waiting\<close> with its nearest-stop reference, its stop flag, its
  wait time and both destination references cleared, and every other NPC is unchanged;
  when the route has one bus or none, the call changes nothing.
\<close>

theorem removeBus_returns_passengers:
  assumes "0 \<le> i" and "i < int (length (routes (state e)))"
  shows "(let r = routes (state e) ! nat i; e' = removeBusFromRoute i e in
          if length (buses r) \<le> 1 then e' = e
          else routes (state e') = (routes (state e))[nat i := r\<lparr>buses := butlast (buses r)\<rparr>] \<and>
               (\<forall>p \<in> set (passengers (last (buses r))).
                  npc_state (npc_heap (state e') p) = waiting \<and>
                  nearestStop (npc_heap (state e') p) = None \<and>
                  \<not> atStop (npc_heap (state e') p) \<and>
                  waitTime (npc_heap (state e') p) = 0 \<and>
                  destinationStop (npc_heap (state e') p) = None \<and>
                  finalDestinationStop (npc_heap (state e') p) = None) \<and>
               (\<forall>p. p \<notin> set (passengers (last (buses r))) \<longrightarrow>
                  npc_heap (state e') p = npc_heap (state e) p))"
proof (cases "length (buses (routes (state e) ! nat i)) \<le> 1")
  case True
  then show ?thesis by (simp add: removeBus_last_bus_noop Let_def)
next
  case False
  with assms have
    e': "removeBusFromRoute i e =
         e\<lparr>state := (state e)\<lparr>
             routes := (routes (state e))[nat i := (routes (state e) ! nat i)
                         \<lparr>buses := butlast (buses (routes (state e) ! nat i))\<rparr>],
             npc_heap := returnPassengers
                           (passengers (last (buses (routes (state e) ! nat i))))
                           (npc_heap (state e))\<rparr>\<rparr>"
    by (simp add: removeBusFromRoute_def Let_def)
  show ?thesis
    using False
    by (simp add: Let_def e' returnPassengers_in returnPassengers_notin returnToWaiting_def)
qed

theorem removeBus_returns_passengers_witness:
  "(0::int) \<le> 0 \<and> 0 < int (length (routes (state engine_two))) \<and>
   length (buses (routes (state (removeBusFromRoute 0 engine_two)) ! 0)) = 1 \<and>
   npc_state (npc_heap (state (removeBusFromRoute 0 engine_two)) 7) = waiting \<and>
   nearestStop (npc_heap (state (removeBusFromRoute 0 engine_two)) 7) = None"
proof -
  have h: "0 < int (length (routes (state engine_two)))"
    by (simp add: engine_two_def state_with_def state0_def)
  have r: "routes (state engine_two) ! nat 0 = route_with [bus_with [], bus_with [7]]"
    by (simp add: engine_two_def state_with_def state0_def)
  from removeBus_returns_passengers [of 0 engine_two, OF _ h] h r
  show ?thesis
    by (simp add: Let_def route_with_def bus_with_def)
qed

section \<open>Breadth-first search: the shared argument\<close>

text \<open>
  \<^verbatim>\<open>PathfindingManager.bfsPathfinding\<close> and \<^verbatim>\<open>RoutePlanner.planTrip\<close> run the same
  worklist loop: take the head of the queue, return if it is the goal, otherwise scan its
  neighbours in order and push each one not yet visited, marking it visited at once, with
  the head's path extended by it. What makes the first path found a shortest one is stated
  here once, over any neighbour relation \<open>nxt\<close>. A queue entry is a node with the nodes
  walked from the origin to reach it.
\<close>

fun walk :: "('n \<Rightarrow> 'n set) \<Rightarrow> 'n \<Rightarrow> 'n list \<Rightarrow> 'n \<Rightarrow> bool" where
  "walk nxt a [] b = (a = b)"
| "walk nxt a (n # ns) b = (n \<in> nxt a \<and> walk nxt n ns b)"

definition shortest_walk :: "('n \<Rightarrow> 'n set) \<Rightarrow> 'n \<Rightarrow> 'n list \<Rightarrow> 'n \<Rightarrow> bool" where
  "shortest_walk nxt a p b =
     (walk nxt a p b \<and> (\<forall>p'. walk nxt a p' b \<longrightarrow> length p \<le> length p'))"

definition bfs_inv ::
  "('n \<Rightarrow> 'n set) \<Rightarrow> 'n \<Rightarrow> 'n \<Rightarrow> ('n \<times> 'n list) list \<Rightarrow> 'n set \<Rightarrow> bool" where
  "bfs_inv nxt origin goal q V =
     (origin \<in> V \<and>
      (\<forall>(n, p) \<in> set q. n \<in> V \<and> shortest_walk nxt origin p n) \<and>
      sorted (map (length \<circ> snd) q) \<and>
      (q \<noteq> [] \<longrightarrow> length (snd (last q)) \<le> Suc (length (snd (hd q)))) \<and>
      (\<forall>v \<in> V. v \<notin> fst ` set q \<longrightarrow> v \<noteq> goal \<and> nxt v \<subseteq> V))"

lemma walk_snoc:
  "walk nxt a (ns @ [n]) b = (\<exists>m. walk nxt a ns m \<and> n \<in> nxt m \<and> n = b)"
  by (induction ns arbitrary: a) auto

lemma sorted_le_last: "sorted xs \<Longrightarrow> x \<in> set xs \<Longrightarrow> x \<le> last (xs :: nat list)"
  by (induction xs) auto

lemma bfs_inv_init: "bfs_inv nxt origin goal [(origin, [])] {origin}"
  by (simp add: bfs_inv_def shortest_walk_def)

lemma bfs_reach_visited:
  assumes inv: "bfs_inv nxt origin goal q V"
  shows "walk nxt origin p' w \<Longrightarrow> (\<forall>(n, p) \<in> set q. length p' \<le> length p) \<Longrightarrow> w \<in> V"
proof (induction p' arbitrary: w rule: rev_induct)
  case Nil
  with inv show ?case by (simp add: bfs_inv_def)
next
  case (snoc l ls)
  from snoc.prems(1) obtain m where m: "walk nxt origin ls m" "w \<in> nxt m"
    by (auto simp: walk_snoc)
  from snoc.prems(2) have shorter: "\<forall>(n, p) \<in> set q. length ls < length p"
    by auto
  then have "\<forall>(n, p) \<in> set q. length ls \<le> length p" by auto
  with snoc.IH m(1) have mV: "m \<in> V" by blast
  have "m \<notin> fst ` set q"
  proof
    assume "m \<in> fst ` set q"
    then obtain p where mp: "(m, p) \<in> set q" by auto
    with inv have "shortest_walk nxt origin p m" by (auto simp: bfs_inv_def)
    with m(1) have "length p \<le> length ls" by (simp add: shortest_walk_def)
    with shorter mp show False by auto
  qed
  with inv mV have "nxt m \<subseteq> V" by (simp add: bfs_inv_def)
  with m(2) show ?case by auto
qed

lemma bfs_inv_empty:
  assumes "bfs_inv nxt origin goal [] V"
  shows "\<not> walk nxt origin p' goal"
proof
  assume w: "walk nxt origin p' goal"
  from bfs_reach_visited [OF assms w] have "goal \<in> V" by simp
  with assms show False by (auto simp add: bfs_inv_def)
qed

lemma bfs_inv_head:
  "bfs_inv nxt origin goal ((n, p) # rest) V \<Longrightarrow> shortest_walk nxt origin p n"
  by (simp add: bfs_inv_def)

lemma bfs_inv_step:
  assumes inv: "bfs_inv nxt origin goal ((n, p) # rest) V"
    and ng: "n \<noteq> goal"
    and ms: "set ms = nxt n - V"
  shows "bfs_inv nxt origin goal (rest @ map (\<lambda>m. (m, p @ [m])) ms) (V \<union> set ms)"
proof -
  let ?q = "(n, p) # rest"
  let ?new = "map (\<lambda>m. (m, p @ [m])) ms"
  from inv have oV: "origin \<in> V"
    and items: "\<forall>(n', p') \<in> set ?q. n' \<in> V \<and> shortest_walk nxt origin p' n'"
    and srt: "sorted (map (length \<circ> snd) ?q)"
    and lst: "length (snd (last ?q)) \<le> Suc (length (snd (hd ?q)))"
    and closed: "\<forall>v \<in> V. v \<notin> fst ` set ?q \<longrightarrow> v \<noteq> goal \<and> nxt v \<subseteq> V"
    by (simp_all add: bfs_inv_def)
  from items have pn: "shortest_walk nxt origin p n" by simp
  have new_short: "shortest_walk nxt origin (p @ [m]) m" if m: "m \<in> set ms" for m
  proof -
    from m ms have mn: "m \<in> nxt n" and mV: "m \<notin> V" by auto
    from pn mn have w: "walk nxt origin (p @ [m]) m"
      by (auto simp: walk_snoc shortest_walk_def)
    have "length (p @ [m]) \<le> length p'" if w': "walk nxt origin p' m" for p'
    proof (rule ccontr)
      assume "\<not> length (p @ [m]) \<le> length p'"
      then have le: "length p' \<le> length p" by simp
      from srt have "\<forall>(n', q') \<in> set ?q. length p \<le> length q'" by auto
      with le have "\<forall>(n', q') \<in> set ?q. length p' \<le> length q'" by fastforce
      from bfs_reach_visited [OF inv w' this] mV show False by simp
    qed
    with w show ?thesis by (simp add: shortest_walk_def)
  qed
  have 1: "origin \<in> V \<union> set ms" using oV by simp
  have 2: "\<forall>(n', p') \<in> set (rest @ ?new). n' \<in> V \<union> set ms \<and> shortest_walk nxt origin p' n'"
    using items new_short by auto
  have rest_bounds: "\<forall>x \<in> set rest. length p \<le> length (snd x) \<and> length (snd x) \<le> Suc (length p)"
  proof
    fix x assume x: "x \<in> set rest"
    from srt x have a: "length p \<le> length (snd x)" by auto
    from x have ne: "rest \<noteq> []" by auto
    from srt have "sorted (map (length \<circ> snd) rest)" by simp
    with x ne have "length (snd x) \<le> length (snd (last rest))"
      using sorted_le_last [of "map (length \<circ> snd) rest" "length (snd x)"]
      by (simp add: last_map)
    moreover from lst ne have "length (snd (last rest)) \<le> Suc (length p)" by simp
    ultimately show "length p \<le> length (snd x) \<and> length (snd x) \<le> Suc (length p)"
      using a by simp
  qed
  have new_len: "map (length \<circ> snd) ?new = replicate (length ms) (Suc (length p))"
    by (simp add: comp_def map_replicate_const)
  have 3: "sorted (map (length \<circ> snd) (rest @ ?new))"
    using srt rest_bounds unfolding map_append new_len by (auto simp: sorted_append)
  have 4: "rest @ ?new \<noteq> [] \<longrightarrow>
           length (snd (last (rest @ ?new))) \<le> Suc (length (snd (hd (rest @ ?new))))"
  proof
    assume ne: "rest @ ?new \<noteq> []"
    have hd_ge: "length p \<le> length (snd (hd (rest @ ?new)))"
    proof (cases rest)
      case Nil
      with ne show ?thesis by (cases ms) auto
    next
      case (Cons a list)
      with rest_bounds show ?thesis by simp
    qed
    have "length (snd (last (rest @ ?new))) \<le> Suc (length p)"
    proof (cases "ms = []")
      case True
      with ne have "rest \<noteq> []" by simp
      with rest_bounds True show ?thesis by (simp add: last_in_set)
    next
      case False
      then show ?thesis by (simp add: last_map)
    qed
    with hd_ge show "length (snd (last (rest @ ?new))) \<le> Suc (length (snd (hd (rest @ ?new))))"
      by simp
  qed
  have 5: "\<forall>v \<in> V \<union> set ms. v \<notin> fst ` set (rest @ ?new) \<longrightarrow> v \<noteq> goal \<and> nxt v \<subseteq> V \<union> set ms"
  proof (intro ballI impI)
    fix v assume v: "v \<in> V \<union> set ms" and nq: "v \<notin> fst ` set (rest @ ?new)"
    from nq have vms: "v \<notin> set ms" by force
    with v have vV: "v \<in> V" by simp
    show "v \<noteq> goal \<and> nxt v \<subseteq> V \<union> set ms"
    proof (cases "v = n")
      case True
      with ng ms show ?thesis by auto
    next
      case False
      with nq have "v \<notin> fst ` set ?q" by auto
      with closed vV show ?thesis by blast
    qed
  qed
  from 1 2 3 4 5 show ?thesis unfolding bfs_inv_def by blast
qed

section \<open>PathfindingManager\<close>

text \<open>
  \<^verbatim>\<open>bfsPathfinding\<close> over the city grid. \<^verbatim>\<open>Math.round\<close> rounds halves up. The
  \<^verbatim>\<open>visited\<close> set of cell keys is a set of cells. Reading \<^verbatim>\<open>cityGrid[newY][newX]\<close>
  raises a TypeError when the grid has no row \<open>newY\<close> and yields \<^verbatim>\<open>undefined\<close> (not
  a road) when the row is too short; the bounds checks before it make both indices
  non-negative. The inner \<^verbatim>\<open>for\<close> over the four directions is \<open>expand\<close>, the
  \<^verbatim>\<open>while\<close> over the queue is \<open>bfs_loop\<close>; it terminates because every push marks a
  new cell of the \<open>COLS \<times> ROWS\<close> grid as visited.
\<close>

datatype js_error = TypeError

type_synonym cell = "int \<times> int"

definition jsRound :: "real \<Rightarrow> int" where
  "jsRound r = \<lfloor>r + 1 / 2\<rfloor>"

definition directions :: "(int \<times> int) list" where
  "directions = [(0, -1), (1, 0), (0, 1), (-1, 0)]"

definition cellIsRoad :: "CityGrid \<Rightarrow> int \<Rightarrow> int \<Rightarrow> js_error + bool" where
  "cellIsRoad g x y =
     (if nat y < length g
      then Inr (nat x < length (g ! nat y) \<and> g ! nat y ! nat x = ROAD)
      else Inl TypeError)"

fun expand ::
  "CityGrid \<Rightarrow> cell \<Rightarrow> cell list \<Rightarrow> (int \<times> int) list \<Rightarrow> (cell \<times> cell list) list \<Rightarrow> cell set
     \<Rightarrow> js_error + (cell \<times> cell list) list \<times> cell set" where
  "expand g c p [] q V = Inr (q, V)"
| "expand g c p (d # ds) q V =
     (let newX = fst c + fst d; newY = snd c + snd d in
      if newX \<ge> 0 \<and> newX < COLS \<and> newY \<ge> 0 \<and> newY < ROWS \<and> (newX, newY) \<notin> V
      then (case cellIsRoad g newX newY of
              Inl e \<Rightarrow> Inl e
            | Inr True \<Rightarrow> expand g c p ds (q @ [((newX, newY), p @ [(newX, newY)])])
                           (insert (newX, newY) V)
            | Inr False \<Rightarrow> expand g c p ds q V)
      else expand g c p ds q V)"

definition grid_cells :: "cell set" where
  "grid_cells = {0..<COLS} \<times> {0..<ROWS}"

definition bfs_measure :: "(cell \<times> cell list) list \<Rightarrow> cell set \<Rightarrow> nat" where
  "bfs_measure q V = 2 * card (grid_cells - V) + length q"

lemma finite_grid_cells: "finite grid_cells"
  by (simp add: grid_cells_def)

lemma expand_measure:
  "expand g c p ds q V = Inr (q', V') \<Longrightarrow> bfs_measure q' V' \<le> bfs_measure q V"
proof (induction ds arbitrary: q V)
  case Nil
  then show ?case by simp
next
  case (Cons d ds)
  let ?n = "(fst c + fst d, snd c + snd d)"
  show ?case
  proof (cases "fst ?n \<ge> 0 \<and> fst ?n < COLS \<and> snd ?n \<ge> 0 \<and> snd ?n < ROWS \<and> ?n \<notin> V")
    case False
    with Cons.prems have "expand g c p ds q V = Inr (q', V')" by (auto simp: Let_def)
    then show ?thesis by (rule Cons.IH)
  next
    case True
    then have inb: "?n \<in> grid_cells - V" by (simp add: grid_cells_def)
    show ?thesis
    proof (cases "cellIsRoad g (fst ?n) (snd ?n)")
      case (Inl e)
      with True Cons.prems show ?thesis by (simp add: Let_def)
    next
      case (Inr b)
      show ?thesis
      proof (cases b)
        case False
        with True Inr Cons.prems have "expand g c p ds q V = Inr (q', V')" by (simp add: Let_def)
        then show ?thesis by (rule Cons.IH)
      next
        case b: True
        with True Inr Cons.prems
        have "expand g c p ds (q @ [(?n, p @ [?n])]) (insert ?n V) = Inr (q', V')"
          by (simp add: Let_def)
        then have "bfs_measure q' V' \<le> bfs_measure (q @ [(?n, p @ [?n])]) (insert ?n V)"
          by (rule Cons.IH)
        moreover have "grid_cells - insert ?n V = (grid_cells - V) - {?n}" by auto
        then have "card (grid_cells - insert ?n V) = card (grid_cells - V) - 1"
          using inb finite_grid_cells by (simp del: Diff_iff)
        moreover have "card (grid_cells - V) > 0"
          using inb finite_grid_cells card_gt_0_iff by blast
        ultimately show ?thesis by (simp add: bfs_measure_def)
      qed
    qed
  qed
qed

definition gridToPixel :: "cell \<Rightarrow> Waypoint" where
  "gridToPixel c = \<lparr>wp_x = real_of_int (fst c * GRID_SIZE), wp_y = real_of_int (snd c * GRID_SIZE)\<rparr>"

function bfs_loop ::
  "CityGrid \<Rightarrow> cell \<Rightarrow> Waypoint \<Rightarrow> (cell \<times> cell list) list \<Rightarrow> cell set
     \<Rightarrow> js_error + Waypoint list" where
  "bfs_loop g goal end [] V = Inr [end]"
| "bfs_loop g goal end ((c, p) # queue) V =
     (if c = goal then Inr (map gridToPixel p @ [end])
      else (case expand g c p directions queue V of
              Inl e \<Rightarrow> Inl e
            | Inr (q', V') \<Rightarrow> bfs_loop g goal end q' V'))"
  by pat_completeness auto
termination
proof (relation "measure (\<lambda>(g, goal, end, q, V). bfs_measure q V)")
  show "wf (measure (\<lambda>(g, goal, end, q, V). bfs_measure q V))" by simp
next
  fix g :: CityGrid and goal c :: cell and "end" :: Waypoint and p queue V x2 q' V'
  assume "c \<noteq> goal" "expand g c p directions queue V = Inr x2" "(q', V') = x2"
  then have "expand g c p directions queue V = Inr (q', V')" by simp
  from expand_measure [OF this]
  show "((g, goal, end, q', V'), (g, goal, end, (c, p) # queue, V))
          \<in> measure (\<lambda>(g, goal, end, q, V). bfs_measure q V)"
    by (simp add: bfs_measure_def)
qed

declare bfs_loop.simps [simp del]

definition bfsPathfinding :: "CityGrid \<Rightarrow> real \<Rightarrow> real \<Rightarrow> real \<Rightarrow> real \<Rightarrow> js_error + Waypoint list" where
  "bfsPathfinding g startX startY endX endY =
     (let startGridX = jsRound (startX / real_of_int GRID_SIZE);
          startGridY = jsRound (startY / real_of_int GRID_SIZE);
          endGridX = jsRound (endX / real_of_int GRID_SIZE);
          endGridY = jsRound (endY / real_of_int GRID_SIZE)
      in if startGridX = endGridX \<and> startGridY = endGridY
         then Inr [\<lparr>wp_x = endX, wp_y = endY\<rparr>]
         else bfs_loop g (endGridX, endGridY) \<lparr>wp_x = endX, wp_y = endY\<rparr>
                [((startGridX, startGridY), [])] {(startGridX, startGridY)})"


subsection \<open>Road paths\<close>

text \<open>
  A grid is well formed when it has \<open>ROWS\<close> rows of \<open>COLS\<close> cells, as
  \<^verbatim>\<open>CityGenerator.generate\<close> builds it. A road path from \<open>a\<close> to \<open>b\<close> is a list of
  cells, each an up/right/down/left neighbour of the one before (the first of \<open>a\<close>), each
  an in-bounds road cell, the last being \<open>b\<close>; \<open>a\<close> itself need not be a road.
  These notions are written out on their own: they use neither the search's list of
  directions nor its test of a cell.
\<close>

definition wf_grid :: "CityGrid \<Rightarrow> bool" where
  "wf_grid g = (length g = nat ROWS \<and> list_all (\<lambda>row. length row = nat COLS) g)"

definition adjacent4 :: "cell \<Rightarrow> cell \<Rightarrow> bool" where
  "adjacent4 a b =
     (b = (fst a, snd a - 1) \<or> b = (fst a + 1, snd a) \<or>
      b = (fst a, snd a + 1) \<or> b = (fst a - 1, snd a))"

definition road_cell :: "CityGrid \<Rightarrow> cell \<Rightarrow> bool" where
  "road_cell g c = (0 \<le> fst c \<and> fst c < COLS \<and> 0 \<le> snd c \<and> snd c < ROWS \<and>
                    g ! nat (snd c) ! nat (fst c) = ROAD)"

definition grid_next :: "CityGrid \<Rightarrow> cell \<Rightarrow> cell set" where
  "grid_next g a = {n. adjacent4 a n \<and> road_cell g n}"

definition road_path :: "CityGrid \<Rightarrow> cell \<Rightarrow> cell list \<Rightarrow> cell \<Rightarrow> bool" where
  "road_path g = walk (grid_next g)"

lemma adjacent4_directions:
  "adjacent4 a b \<longleftrightarrow> b \<in> set (map (\<lambda>d. (fst a + fst d, snd a + snd d)) directions)"
  by (auto simp add: adjacent4_def directions_def)

lemma cellIsRoad_wf:
  "wf_grid g \<Longrightarrow> 0 \<le> x \<Longrightarrow> x < COLS \<Longrightarrow> 0 \<le> y \<Longrightarrow> y < ROWS \<Longrightarrow>
   cellIsRoad g x y = Inr (road_cell g (x, y))"
  by (auto simp add: cellIsRoad_def wf_grid_def road_cell_def list_all_length)

lemma expand_spec:
  assumes wf: "wf_grid g"
  shows "\<exists>ms. expand g c p ds q V = Inr (q @ map (\<lambda>m. (m, p @ [m])) ms, V \<union> set ms) \<and>
              set ms = {n. n \<in> set (map (\<lambda>d. (fst c + fst d, snd c + snd d)) ds) \<and> road_cell g n} - V"
proof (induction ds arbitrary: q V)
  case Nil
  show ?case by (rule exI [of _ "[]"]) simp
next
  case (Cons d ds)
  let ?n = "(fst c + fst d, snd c + snd d)"
  let ?S = "\<lambda>ds. {n. n \<in> set (map (\<lambda>d. (fst c + fst d, snd c + snd d)) ds) \<and> road_cell g n}"
  have S: "?S (d # ds) = (if road_cell g ?n then insert ?n (?S ds) else ?S ds)" by auto
  show ?case
  proof (cases "road_cell g ?n \<and> ?n \<notin> V")
    case True
    then have inb: "fst ?n \<ge> 0 \<and> fst ?n < COLS \<and> snd ?n \<ge> 0 \<and> snd ?n < ROWS"
      by (simp add: road_cell_def)
    with wf True have r: "cellIsRoad g (fst ?n) (snd ?n) = Inr True"
      by (simp add: cellIsRoad_wf)
    from Cons.IH [of "q @ [(?n, p @ [?n])]" "insert ?n V"]
    obtain ms where ms:
      "expand g c p ds (q @ [(?n, p @ [?n])]) (insert ?n V)
         = Inr ((q @ [(?n, p @ [?n])]) @ map (\<lambda>m. (m, p @ [m])) ms, insert ?n V \<union> set ms)"
      "set ms = ?S ds - insert ?n V" by blast
    have e: "expand g c p (d # ds) q V
               = Inr (q @ map (\<lambda>m. (m, p @ [m])) (?n # ms), V \<union> set (?n # ms))"
      using True inb r ms(1) by (simp add: Let_def)
    have "set (?n # ms) = ?S (d # ds) - V"
      unfolding S using True ms(2) by auto
    with e show ?thesis by blast
  next
    case False
    from Cons.IH [of q V]
    obtain ms where ms:
      "expand g c p ds q V = Inr (q @ map (\<lambda>m. (m, p @ [m])) ms, V \<union> set ms)"
      "set ms = ?S ds - V" by blast
    have e: "expand g c p (d # ds) q V = expand g c p ds q V"
    proof (cases "fst ?n \<ge> 0 \<and> fst ?n < COLS \<and> snd ?n \<ge> 0 \<and> snd ?n < ROWS \<and> ?n \<notin> V")
      case True
      with wf have "cellIsRoad g (fst ?n) (snd ?n) = Inr (road_cell g ?n)"
        by (simp add: cellIsRoad_wf)
      with True False show ?thesis by (simp add: Let_def)
    next
      case False
      then show ?thesis by (auto simp add: Let_def)
    qed
    have "set ms = ?S (d # ds) - V"
      unfolding S using False ms(2) by auto
    with e ms(1) show ?thesis by auto
  qed
qed

lemma expand_directions:
  assumes wf: "wf_grid g"
  shows "\<exists>ms. expand g c p directions q V = Inr (q @ map (\<lambda>m. (m, p @ [m])) ms, V \<union> set ms) \<and>
              set ms = grid_next g c - V"
proof -
  from expand_spec [OF wf, of c p directions q V]
  show ?thesis by (simp add: grid_next_def adjacent4_directions)
qed

lemma bfs_loop_correct:
  "wf_grid g \<Longrightarrow> bfs_inv (grid_next g) origin goal q V \<Longrightarrow>
         (if \<exists>p. road_path g origin p goal
          then \<exists>p. bfs_loop g goal end q V = Inr (map gridToPixel p @ [end]) \<and>
                   shortest_walk (grid_next g) origin p goal
          else bfs_loop g goal end q V = Inr [end])"
proof (induction g goal "end" q V rule: bfs_loop.induct)
  case (1 g goal "end" V)
  from bfs_inv_empty [OF "1.prems"(2)] show ?case by (simp add: road_path_def bfs_loop.simps)
next
  case (2 g goal "end" c p queue V)
  note wf = "2.prems"(1) and inv = "2.prems"(2)
  show ?case
  proof (cases "c = goal")
    case True
    from bfs_inv_head [OF inv] True have sw: "shortest_walk (grid_next g) origin p goal"
      by simp
    then have "\<exists>p. road_path g origin p goal"
      by (auto simp: road_path_def shortest_walk_def)
    with sw True show ?thesis by (auto simp: bfs_loop.simps)
  next
    case False
    from expand_directions [OF wf, of c p queue V]
    obtain ms where ms:
      "expand g c p directions queue V = Inr (queue @ map (\<lambda>m. (m, p @ [m])) ms, V \<union> set ms)"
      "set ms = grid_next g c - V" by blast
    from bfs_inv_step [OF inv False ms(2)]
    have inv': "bfs_inv (grid_next g) origin goal (queue @ map (\<lambda>m. (m, p @ [m])) ms) (V \<union> set ms)" .
    from "2.IH" [OF False ms(1) refl wf inv'] False ms(1)
    show ?thesis by (simp add: bfs_loop.simps)
  qed
qed

section \<open>PathCache and findPath\<close>

text \<open>
  The cache is a JavaScript \<^verbatim>\<open>Map\<close>, which iterates in insertion order: an association
  list with distinct keys, oldest insertion first. \<^verbatim>\<open>delete\<close> removes the entry of a
  key, \<^verbatim>\<open>set\<close> overwrites in place or appends. The key text
  \<^verbatim>\<open>"startX,startY->endX,endY"\<close> is the tuple of the four numbers. An entry's path is
  always an array, so \<^verbatim>\<open>if (cached)\<close> tests presence.
\<close>

type_synonym PathKey = "real \<times> real \<times> real \<times> real"

definition js_map_delete :: "'k \<Rightarrow> ('k \<times> 'v) list \<Rightarrow> ('k \<times> 'v) list" where
  "js_map_delete k m = filter (\<lambda>e. fst e \<noteq> k) m"

definition js_map_set :: "'k \<Rightarrow> 'v \<Rightarrow> ('k \<times> 'v) list \<Rightarrow> ('k \<times> 'v) list" where
  "js_map_set k v m =
     (if k \<in> fst ` set m then map (\<lambda>e. if fst e = k then (k, v) else e) m else m @ [(k, v)])"

record PathCache =
  cache :: "(PathKey \<times> Waypoint list) list"
  maxSize :: nat

definition new_PathCache :: "nat \<Rightarrow> PathCache" where
  "new_PathCache n = \<lparr>cache = [], maxSize = n\<rparr>"

definition generateKey :: "real \<Rightarrow> real \<Rightarrow> real \<Rightarrow> real \<Rightarrow> PathKey" where
  "generateKey startX startY endX endY = (startX, startY, endX, endY)"

definition cache_get :: "PathKey \<Rightarrow> PathCache \<Rightarrow> Waypoint list option \<times> PathCache" where
  "cache_get key c =
     (case map_of (cache c) key of
        None \<Rightarrow> (None, c)
      | Some path \<Rightarrow> (Some path, c\<lparr>cache := js_map_set key path (js_map_delete key (cache c))\<rparr>))"

definition cache_set :: "PathKey \<Rightarrow> Waypoint list \<Rightarrow> PathCache \<Rightarrow> PathCache" where
  "cache_set key path c =
     (let m = (if length (cache c) \<ge> maxSize c
               then (case cache c of [] \<Rightarrow> [] | (firstKey, _) # _ \<Rightarrow> js_map_delete firstKey (cache c))
               else cache c)
      in c\<lparr>cache := js_map_set key path m\<rparr>)"

definition cache_clear :: "PathCache \<Rightarrow> PathCache" where
  "cache_clear c = c\<lparr>cache := []\<rparr>"

record PathfindingManager =
  pm_cache :: PathCache
  cityGrid :: CityGrid

definition new_PathfindingManager :: "CityGrid \<Rightarrow> PathfindingManager" where
  "new_PathfindingManager g = \<lparr>pm_cache = new_PathCache PATH_CACHE_SIZE, cityGrid = g\<rparr>"

definition findPath ::
  "PathfindingManager \<Rightarrow> real \<Rightarrow> real \<Rightarrow> real \<Rightarrow> real
     \<Rightarrow> js_error + Waypoint list \<times> PathfindingManager" where
  "findPath pm startX startY endX endY =
     (let cacheKey = generateKey startX startY endX endY in
      case cache_get cacheKey (pm_cache pm) of
        (Some cached, c') \<Rightarrow> Inr (cached, pm\<lparr>pm_cache := c'\<rparr>)
      | (None, c') \<Rightarrow>
          (case bfsPathfinding (cityGrid pm) startX startY endX endY of
             Inl e \<Rightarrow> Inl e
           | Inr path \<Rightarrow> Inr (path, pm\<lparr>pm_cache := cache_set cacheKey path c'\<rparr>)))"

definition updateCityGrid :: "PathfindingManager \<Rightarrow> CityGrid \<Rightarrow> PathfindingManager" where
  "updateCityGrid pm g = pm\<lparr>cityGrid := g, pm_cache := cache_clear (pm_cache pm)\<rparr>"

definition clearCache :: "PathfindingManager \<Rightarrow> PathfindingManager" where
  "clearCache pm = pm\<lparr>pm_cache := cache_clear (pm_cache pm)\<rparr>"

text \<open>A run of \<open>findPath\<close> calls, one per key, threading the manager.\<close>

fun findPaths :: "PathfindingManager \<Rightarrow> PathKey list \<Rightarrow> js_error + PathfindingManager" where
  "findPaths pm [] = Inr pm"
| "findPaths pm ((sx, sy, ex, ey) # ks) =
     (case findPath pm sx sy ex ey of Inl e \<Rightarrow> Inl e | Inr (_, pm') \<Rightarrow> findPaths pm' ks)"

definition search :: "CityGrid \<Rightarrow> PathKey \<Rightarrow> js_error + Waypoint list" where
  "search g k = (case k of (sx, sy, ex, ey) \<Rightarrow> bfsPathfinding g sx sy ex ey)"

definition cache_sound :: "PathfindingManager \<Rightarrow> bool" where
  "cache_sound pm =
     (1 \<le> maxSize (pm_cache pm) \<and>
      length (cache (pm_cache pm)) \<le> maxSize (pm_cache pm) \<and>
      distinct (map fst (cache (pm_cache pm))) \<and>
      list_all (\<lambda>e. search (cityGrid pm) (fst e) = Inr (snd e)) (cache (pm_cache pm)))"

definition cached_keys :: "PathfindingManager \<Rightarrow> PathKey list" where
  "cached_keys pm = map fst (cache (pm_cache pm))"

text \<open>The \<open>n\<close> most recently used of a list of keys, least recent first.\<close>

definition most_recent :: "nat \<Rightarrow> 'k list \<Rightarrow> 'k list" where
  "most_recent n ks = (let r = remdups ks in drop (length r - n) r)"

subsection \<open>Lemmas\<close>

lemma keys_delete: "map fst (js_map_delete k m) = filter (\<lambda>k'. k' \<noteq> k) (map fst m)"
  by (induction m) (auto simp: js_map_delete_def)

lemma keys_set_new: "k \<notin> fst ` set m \<Longrightarrow> map fst (js_map_set k v m) = map fst m @ [k]"
  by (simp add: js_map_set_def)

lemma set_tl_subset: "set (tl xs) \<subseteq> set xs"
  by (cases xs) auto

lemma key_not_in_delete: "k \<notin> fst ` set (js_map_delete k m)"
  by (auto simp: js_map_delete_def)

lemma map_of_delete_self: "map_of (js_map_delete k m) k = None"
  by (simp add: map_of_eq_None_iff key_not_in_delete)

lemma cache_get_miss: "map_of (cache c) key = None \<Longrightarrow> cache_get key c = (None, c)"
  by (simp add: cache_get_def)

lemma cache_get_hit:
  "map_of (cache c) key = Some path \<Longrightarrow>
   cache_get key c = (Some path, c\<lparr>cache := js_map_delete key (cache c) @ [(key, path)]\<rparr>)"
  by (simp add: cache_get_def js_map_set_def key_not_in_delete)

lemma findPath_hit:
  "map_of (cache (pm_cache pm)) (sx, sy, ex, ey) = Some path \<Longrightarrow>
   findPath pm sx sy ex ey =
     Inr (path, pm\<lparr>pm_cache := (pm_cache pm)\<lparr>cache :=
            js_map_delete (sx, sy, ex, ey) (cache (pm_cache pm)) @ [((sx, sy, ex, ey), path)]\<rparr>\<rparr>)"
  by (simp add: findPath_def generateKey_def cache_get_hit Let_def)

lemma findPath_miss:
  "map_of (cache (pm_cache pm)) (sx, sy, ex, ey) = None \<Longrightarrow>
   findPath pm sx sy ex ey =
     (case bfsPathfinding (cityGrid pm) sx sy ex ey of
        Inl e \<Rightarrow> Inl e
      | Inr path \<Rightarrow> Inr (path, pm\<lparr>pm_cache := cache_set (sx, sy, ex, ey) path (pm_cache pm)\<rparr>))"
  by (simp add: findPath_def generateKey_def cache_get_miss Let_def)

lemma cache_set_new:
  assumes "key \<notin> fst ` set (cache c)" and "distinct (map fst (cache c))"
  shows "cache (cache_set key path c) =
           (if length (cache c) \<ge> maxSize c then tl (cache c) else cache c) @ [(key, path)]"
proof (cases "cache c")
  case Nil
  then show ?thesis by (simp add: cache_set_def js_map_set_def Let_def)
next
  case (Cons a m)
  obtain k v where a: "a = (k, v)" by (cases a)
  from assms(2) Cons a have "js_map_delete k (cache c) = m"
    by (auto simp: js_map_delete_def filter_id_conv rev_image_eqI)
  moreover from assms(1) Cons have "key \<notin> fst ` set m" by auto
  ultimately show ?thesis using Cons a assms(1)
    by (simp add: cache_set_def js_map_set_def Let_def)
qed

lemma sound_new: "cache_sound (new_PathfindingManager g)"
  by (simp add: cache_sound_def new_PathfindingManager_def new_PathCache_def PATH_CACHE_SIZE_def)

lemma sound_clear: "cache_sound pm \<Longrightarrow> cache_sound (clearCache pm)"
  by (simp add: cache_sound_def clearCache_def cache_clear_def)

lemma sound_update: "cache_sound pm \<Longrightarrow> cache_sound (updateCityGrid pm g)"
  by (simp add: cache_sound_def updateCityGrid_def cache_clear_def)

lemma map_of_sound:
  "list_all (\<lambda>e. search g (fst e) = Inr (snd e)) m \<Longrightarrow> map_of m k = Some v \<Longrightarrow> search g k = Inr v"
  by (induction m) (auto split: if_splits)

lemma findPath_sound:
  assumes s: "cache_sound pm" and f: "findPath pm sx sy ex ey = Inr (path, pm')"
  shows "cache_sound pm' \<and> bfsPathfinding (cityGrid pm) sx sy ex ey = Inr path \<and>
         cityGrid pm' = cityGrid pm \<and> maxSize (pm_cache pm') = maxSize (pm_cache pm) \<and>
         map_of (cache (pm_cache pm')) (sx, sy, ex, ey) = Some path \<and>
         cached_keys pm' =
           (if (sx, sy, ex, ey) \<in> set (cached_keys pm)
            then filter (\<lambda>k. k \<noteq> (sx, sy, ex, ey)) (cached_keys pm)
            else if length (cached_keys pm) \<ge> maxSize (pm_cache pm) then tl (cached_keys pm)
            else cached_keys pm) @ [(sx, sy, ex, ey)]"
proof (cases "map_of (cache (pm_cache pm)) (sx, sy, ex, ey)")
  case None
  let ?key = "(sx, sy, ex, ey)"
  let ?c = "pm_cache pm"
  from None have notin: "?key \<notin> fst ` set (cache ?c)" by (simp add: map_of_eq_None_iff)
  from f None have b: "bfsPathfinding (cityGrid pm) sx sy ex ey = Inr path"
    and pm': "pm' = pm\<lparr>pm_cache := cache_set ?key path ?c\<rparr>"
    by (auto simp: findPath_miss split: sum.splits)
  from s have d: "distinct (map fst (cache ?c))" by (simp add: cache_sound_def)
  let ?m = "if length (cache ?c) \<ge> maxSize ?c then tl (cache ?c) else cache ?c"
  have c': "cache (cache_set ?key path ?c) = ?m @ [(?key, path)]"
    by (rule cache_set_new [OF notin d])
  have ms: "maxSize (cache_set ?key path ?c) = maxSize ?c" by (simp add: cache_set_def Let_def)
  have sub: "set ?m \<subseteq> set (cache ?c)" using set_tl_subset [of "cache ?c"] by auto
  have dm: "distinct (map fst ?m)" using d by (simp add: distinct_tl map_tl)
  have lm: "length ?m + 1 \<le> maxSize ?c"
    using s by (cases "cache ?c") (auto simp: cache_sound_def)
  have "cache_sound pm'"
    unfolding cache_sound_def pm' using s sub dm lm notin b c' ms
    by (auto simp: cache_sound_def list_all_iff search_def)
  moreover have "map_of (cache (pm_cache pm')) ?key = Some path"
    using sub notin by (simp add: pm' c' map_add_Some_iff) (auto simp: map_of_eq_None_iff)
  moreover have "cached_keys pm' = (if length (cached_keys pm) \<ge> maxSize ?c then tl (cached_keys pm)
            else cached_keys pm) @ [?key]"
    by (simp add: cached_keys_def pm' c' map_tl)
  moreover have "?key \<notin> set (cached_keys pm)" using notin by (simp add: cached_keys_def)
  ultimately show ?thesis using b pm' ms by simp
next
  case (Some cached)
  let ?key = "(sx, sy, ex, ey)"
  let ?c = "pm_cache pm"
  from f Some have p: "path = cached"
    and pm': "pm' = pm\<lparr>pm_cache := ?c\<lparr>cache := js_map_delete ?key (cache ?c) @ [(?key, path)]\<rparr>\<rparr>"
    by (auto simp: findPath_hit)
  from s Some p have b: "search (cityGrid pm) ?key = Inr path"
    by (auto simp: cache_sound_def intro: map_of_sound)
  from Some have kin: "?key \<in> set (cached_keys pm)"
    by (metis cached_keys_def map_of_eq_None_iff option.distinct(1) set_map)
  have len: "length (js_map_delete ?key (cache ?c)) < length (cache ?c)"
    using kin unfolding js_map_delete_def cached_keys_def
    by (intro length_filter_less [where x = "(?key, cached)"]) (use Some in \<open>auto dest: map_of_SomeD\<close>)
  have "cache_sound pm'"
    using s b len unfolding cache_sound_def pm'
    by (auto simp: keys_delete list_all_iff js_map_delete_def distinct_map_filter)
  moreover have "map_of (cache (pm_cache pm')) ?key = Some path"
    by (simp add: pm' map_add_Some_iff map_of_delete_self)
  moreover have "cached_keys pm' = filter (\<lambda>k. k \<noteq> ?key) (cached_keys pm) @ [?key]"
    by (simp add: cached_keys_def pm' keys_delete)
  ultimately show ?thesis using b kin pm' by (simp add: search_def)
qed


text \<open>
  The grid cell a pixel position rounds to: the nearest multiple of 30 in each
  coordinate, a half rounding up.
\<close>

definition cell_of :: "real \<Rightarrow> real \<Rightarrow> cell" where
  "cell_of x y = (\<lfloor>x / 30 + 1 / 2\<rfloor>, \<lfloor>y / 30 + 1 / 2\<rfloor>)"

lemma cell_of_jsRound:
  "cell_of x y = (jsRound (x / real_of_int GRID_SIZE), jsRound (y / real_of_int GRID_SIZE))"
  by (simp add: cell_of_def jsRound_def GRID_SIZE_def)

lemma gridToPixel_eq:
  "gridToPixel = (\<lambda>c. \<lparr>wp_x = 30 * real_of_int (fst c), wp_y = 30 * real_of_int (snd c)\<rparr>)"
  by (rule ext) (simp add: gridToPixel_def GRID_SIZE_def)

lemma bfsPathfinding_correct:
  assumes wf: "wf_grid g"
  shows "(if cell_of sx sy = cell_of ex ey then bfsPathfinding g sx sy ex ey = Inr [\<lparr>wp_x = ex, wp_y = ey\<rparr>]
          else if \<exists>p. road_path g (cell_of sx sy) p (cell_of ex ey)
          then \<exists>p. bfsPathfinding g sx sy ex ey = Inr (map gridToPixel p @ [\<lparr>wp_x = ex, wp_y = ey\<rparr>]) \<and>
                   shortest_walk (grid_next g) (cell_of sx sy) p (cell_of ex ey)
          else bfsPathfinding g sx sy ex ey = Inr [\<lparr>wp_x = ex, wp_y = ey\<rparr>])"
proof (cases "cell_of sx sy = cell_of ex ey")
  case True
  then show ?thesis by (simp add: bfsPathfinding_def cell_of_jsRound Let_def)
next
  case False
  then have b: "bfsPathfinding g sx sy ex ey =
      bfs_loop g (cell_of ex ey) \<lparr>wp_x = ex, wp_y = ey\<rparr> [(cell_of sx sy, [])] {cell_of sx sy}"
    by (auto simp add: bfsPathfinding_def cell_of_jsRound Let_def)
  from bfs_loop_correct [OF wf bfs_inv_init, of "cell_of sx sy" "cell_of ex ey" "\<lparr>wp_x = ex, wp_y = ey\<rparr>"]
    False b
  show ?thesis by simp
qed

lemma bfsPathfinding_total:
  assumes wf: "wf_grid g"
  shows "\<exists>path. bfsPathfinding g sx sy ex ey = Inr path \<and> path \<noteq> [] \<and>
                last path = \<lparr>wp_x = ex, wp_y = ey\<rparr>"
  using bfsPathfinding_correct [OF wf, of sx sy ex ey]
  by (auto split: if_splits)

lemma findPath_total:
  assumes wf: "wf_grid (cityGrid pm)" and s: "cache_sound pm"
  shows "\<exists>path pm'. findPath pm sx sy ex ey = Inr (path, pm') \<and>
           bfsPathfinding (cityGrid pm) sx sy ex ey = Inr path"
proof (cases "map_of (cache (pm_cache pm)) (sx, sy, ex, ey)")
  case None
  from bfsPathfinding_total [OF wf, of sx sy ex ey] obtain path
    where "bfsPathfinding (cityGrid pm) sx sy ex ey = Inr path" by blast
  with None show ?thesis by (simp add: findPath_miss)
next
  case (Some path)
  then have f: "\<exists>pm'. findPath pm sx sy ex ey = Inr (path, pm')" by (simp add: findPath_hit)
  then obtain pm' where "findPath pm sx sy ex ey = Inr (path, pm')" by blast
  with findPath_sound [OF s this] show ?thesis by blast
qed

lemma remdups_drop_later:
  "x \<in> set ys \<Longrightarrow> remdups (filter (\<lambda>k. k \<noteq> x) xs @ ys) = remdups (xs @ ys)"
  by (induction xs) auto

lemma most_recent_id: "distinct c \<Longrightarrow> length c \<le> n \<Longrightarrow> most_recent n c = c"
  by (simp add: most_recent_def Let_def distinct_remdups_id)

lemma most_recent_evict:
  assumes d: "distinct (a # c0)" and k: "k \<notin> set (a # c0)" and n: "length (a # c0) = n"
  shows "most_recent n (c0 @ k # ks) = most_recent n ((a # c0) @ k # ks)"
proof (cases "a \<in> set (c0 @ k # ks)")
  case True
  then show ?thesis by (simp add: most_recent_def)
next
  case False
  let ?R = "remdups (c0 @ k # ks)"
  have "set (k # c0) \<subseteq> set ?R" by auto
  then have "card (set (k # c0)) \<le> card (set ?R)" by (intro card_mono) auto
  moreover have "card (set (k # c0)) = n" using d k n by (simp add: distinct_card)
  moreover have "card (set ?R) = length ?R"
    using distinct_card [OF distinct_remdups, of "c0 @ k # ks"] by simp
  ultimately have "n \<le> length ?R" by simp
  then have "Suc (length ?R) - n = Suc (length ?R - n)" by simp
  with False show ?thesis by (simp add: most_recent_def Let_def)
qed

lemma findPaths_keys:
  "wf_grid (cityGrid pm) \<Longrightarrow> cache_sound pm \<Longrightarrow>
   \<exists>pm'. findPaths pm ks = Inr pm' \<and> cache_sound pm' \<and> cityGrid pm' = cityGrid pm \<and>
         maxSize (pm_cache pm') = maxSize (pm_cache pm) \<and>
         cached_keys pm' = most_recent (maxSize (pm_cache pm)) (cached_keys pm @ ks)"
proof (induction ks arbitrary: pm)
  case Nil
  then show ?case by (simp add: most_recent_id cache_sound_def cached_keys_def)
next
  case (Cons k ks)
  obtain sx sy ex ey where k: "k = (sx, sy, ex, ey)" by (cases k) auto
  from findPath_total [OF Cons.prems, of sx sy ex ey] obtain path pm1
    where f: "findPath pm sx sy ex ey = Inr (path, pm1)" by blast
  note s1 = findPath_sound [OF Cons.prems(2) f]
  from s1 Cons.prems(1) have wf1: "wf_grid (cityGrid pm1)" by simp
  from s1 have so1: "cache_sound pm1" by simp
  from Cons.IH [OF wf1 so1] obtain pm' where pm':
    "findPaths pm1 ks = Inr pm'" "cache_sound pm'" "cityGrid pm' = cityGrid pm1"
    "maxSize (pm_cache pm') = maxSize (pm_cache pm1)"
    "cached_keys pm' = most_recent (maxSize (pm_cache pm1)) (cached_keys pm1 @ ks)" by blast
  let ?n = "maxSize (pm_cache pm)"
  let ?c = "cached_keys pm"
  from Cons.prems(2) have d: "distinct ?c" and le: "length ?c \<le> ?n" and n1: "1 \<le> ?n"
    by (simp_all add: cache_sound_def cached_keys_def)
  have "most_recent ?n (cached_keys pm1 @ ks) = most_recent ?n (?c @ k # ks)"
  proof (cases "k \<in> set ?c")
    case True
    with s1 k have "cached_keys pm1 = filter (\<lambda>k'. k' \<noteq> k) ?c @ [k]" by simp
    then show ?thesis using remdups_drop_later [of k "k # ks" ?c]
      by (simp add: most_recent_def)
  next
    case False
    show ?thesis
    proof (cases "?n \<le> length ?c")
      case full: True
      with le n1 obtain a c0 where c: "?c = a # c0" by (cases ?c) auto
      from False full s1 k c have c1: "cached_keys pm1 = c0 @ [k]" by simp
      from full le have "length (a # c0) = ?n" by (simp add: c)
      from most_recent_evict [OF _ _ this, of k ks] d False c
      show ?thesis by (simp add: c1)
    next
      case notfull: False
      with False s1 k have "cached_keys pm1 = ?c @ [k]" by simp
      then show ?thesis by simp
    qed
  qed
  with pm' s1 f k show ?case by simp
qed


subsection \<open>Sample data\<close>

text \<open>
  A 60 by 60 grid whose roads are row 0 and column 2, and a manager over it with a cache
  of two entries.
\<close>

definition road_row :: CityGrid where
  "road_row = map (\<lambda>y. map (\<lambda>x. if y = 0 \<or> x = 2 then ROAD else EMPTY) [0..<60]) [0..<60]"

definition pm_small :: PathfindingManager where
  "pm_small = \<lparr>pm_cache = new_PathCache 2, cityGrid = road_row\<rparr>"

lemma wf_road_row: "wf_grid road_row"
  by (simp add: wf_grid_def road_row_def ROWS_def COLS_def list_all_iff)

lemma sound_pm_small: "cache_sound pm_small"
  by (simp add: cache_sound_def pm_small_def new_PathCache_def)

subsection \<open>Claims about findPath\<close>

text \<open>
  C5. On a well-formed grid, in every manager state whose cache holds only results of
  earlier searches on that grid, \<open>findPath\<close> returns (it raises nothing) a non-empty
  waypoint list whose last waypoint is exactly \<open>(endX, endY)\<close>; when start and end round
  to the same cell the list is that single waypoint, so \<open>findPath(p, p) = [p]\<close>; and when
  no road path joins the two cells the list is again that single waypoint.
\<close>

theorem findPath_ends_at_end:
  assumes "wf_grid (cityGrid pm)" and "cache_sound pm"
  shows "\<exists>path pm'. findPath pm sx sy ex ey = Inr (path, pm') \<and>
           path \<noteq> [] \<and> last path = \<lparr>wp_x = ex, wp_y = ey\<rparr> \<and>
           (cell_of sx sy = cell_of ex ey \<longrightarrow> path = [\<lparr>wp_x = ex, wp_y = ey\<rparr>]) \<and>
           ((\<forall>p. \<not> road_path (cityGrid pm) (cell_of sx sy) p (cell_of ex ey)) \<longrightarrow>
              path = [\<lparr>wp_x = ex, wp_y = ey\<rparr>])"
proof -
  from findPath_total [OF assms, of sx sy ex ey] obtain path pm'
    where f: "findPath pm sx sy ex ey = Inr (path, pm')"
      and b: "bfsPathfinding (cityGrid pm) sx sy ex ey = Inr path" by blast
  from bfsPathfinding_total [OF assms(1), of sx sy ex ey] b
  have ne: "path \<noteq> []" and l: "last path = \<lparr>wp_x = ex, wp_y = ey\<rparr>" by auto
  from bfsPathfinding_correct [OF assms(1), of sx sy ex ey] b
  have "cell_of sx sy = cell_of ex ey \<longrightarrow> path = [\<lparr>wp_x = ex, wp_y = ey\<rparr>]"
    and "(\<forall>p. \<not> road_path (cityGrid pm) (cell_of sx sy) p (cell_of ex ey)) \<longrightarrow>
              path = [\<lparr>wp_x = ex, wp_y = ey\<rparr>]"
    by (auto split: if_splits)
  with f ne l show ?thesis by blast
qed

lemma cell_150: "cell_of 150 150 = (5, 5)"
  by (simp add: cell_of_def)

lemma cell_65_58: "cell_of 65 58 = (2, 2)"
  by (simp add: cell_of_def)

lemma cell_0_0: "cell_of 0 0 = (0, 0)"
  by (simp add: cell_of_def)

lemma isolated_5_5: "\<not> road_path road_row (5, 5) p (2, 2)"
proof (cases p)
  case Nil
  then show ?thesis by (simp add: road_path_def)
next
  case (Cons n ns)
  have "grid_next road_row (5, 5) = {}"
    by (auto simp add: grid_next_def adjacent4_def directions_def road_cell_def road_row_def
        COLS_def ROWS_def)
  with Cons show ?thesis by (simp add: road_path_def)
qed

theorem findPath_ends_at_end_witness:
  "wf_grid (cityGrid pm_small) \<and> cache_sound pm_small \<and>
   (\<forall>p. \<not> road_path (cityGrid pm_small) (cell_of 150 150) p (cell_of 65 58)) \<and>
   (\<exists>pm'. findPath pm_small 150 150 65 58 = Inr ([\<lparr>wp_x = 65, wp_y = 58\<rparr>], pm'))"
proof -
  have wf: "wf_grid (cityGrid pm_small)" by (simp add: pm_small_def wf_road_row)
  have iso: "\<forall>p. \<not> road_path (cityGrid pm_small) (cell_of 150 150) p (cell_of 65 58)"
    by (simp add: pm_small_def cell_150 cell_65_58 isolated_5_5)
  from findPath_ends_at_end [OF wf sound_pm_small, of 150 150 65 58] iso
  have "\<exists>pm'. findPath pm_small 150 150 65 58 = Inr ([\<lparr>wp_x = 65, wp_y = 58\<rparr>], pm')"
    by auto
  with wf sound_pm_small iso show ?thesis by blast
qed

text \<open>
  C4. When start and end round to distinct cells joined by some road path, \<open>findPath\<close>
  returns the waypoints of a road path \<open>p\<close> from the start cell to the end cell, one
  waypoint per cell at 30 times the cell's coordinates, in the path's order, followed by
  the exact end point; and no road path between the two cells has fewer cells (hops)
  than \<open>p\<close>.
\<close>

theorem findPath_minimum_hops:
  assumes "wf_grid (cityGrid pm)" and "cache_sound pm"
    and "cell_of sx sy \<noteq> cell_of ex ey"
    and "road_path (cityGrid pm) (cell_of sx sy) cells (cell_of ex ey)"
  shows "\<exists>p pm'. findPath pm sx sy ex ey =
             Inr (map (\<lambda>c. \<lparr>wp_x = 30 * real_of_int (fst c), wp_y = 30 * real_of_int (snd c)\<rparr>) p
                    @ [\<lparr>wp_x = ex, wp_y = ey\<rparr>], pm') \<and>
           road_path (cityGrid pm) (cell_of sx sy) p (cell_of ex ey) \<and>
           (\<forall>p'. road_path (cityGrid pm) (cell_of sx sy) p' (cell_of ex ey)
                   \<longrightarrow> length p \<le> length p')"
proof -
  from findPath_total [OF assms(1,2), of sx sy ex ey] obtain path pm'
    where f: "findPath pm sx sy ex ey = Inr (path, pm')"
      and b: "bfsPathfinding (cityGrid pm) sx sy ex ey = Inr path" by blast
  from assms(4) have "\<exists>p. road_path (cityGrid pm) (cell_of sx sy) p (cell_of ex ey)" by blast
  with bfsPathfinding_correct [OF assms(1), of sx sy ex ey] assms(3) b
  obtain p where "path = map gridToPixel p @ [\<lparr>wp_x = ex, wp_y = ey\<rparr>]"
    "shortest_walk (grid_next (cityGrid pm)) (cell_of sx sy) p (cell_of ex ey)"
    by auto
  with f show ?thesis unfolding gridToPixel_eq by (auto simp: shortest_walk_def road_path_def)
qed

text \<open>
  On the sample grid, from pixel \<open>(0, 0)\<close> (cell \<open>(0, 0)\<close>) to pixel \<open>(65, 58)\<close> (cell
  \<open>(2, 2)\<close>): the result runs along row 0 to column 2 and down that column, and no road
  path between the two cells has fewer than its four cells.
\<close>

lemma findPath_small_0_0:
  "findPath pm_small 0 0 65 58 =
     Inr ([\<lparr>wp_x = 30, wp_y = 0\<rparr>, \<lparr>wp_x = 60, wp_y = 0\<rparr>, \<lparr>wp_x = 60, wp_y = 30\<rparr>,
           \<lparr>wp_x = 60, wp_y = 60\<rparr>, \<lparr>wp_x = 65, wp_y = 58\<rparr>],
          pm_small\<lparr>pm_cache := cache_set (generateKey 0 0 65 58)
             [\<lparr>wp_x = 30, wp_y = 0\<rparr>, \<lparr>wp_x = 60, wp_y = 0\<rparr>, \<lparr>wp_x = 60, wp_y = 30\<rparr>,
              \<lparr>wp_x = 60, wp_y = 60\<rparr>, \<lparr>wp_x = 65, wp_y = 58\<rparr>] (new_PathCache 2)\<rparr>)"
proof -
  have r [simp]: "\<And>x y. x < 60 \<Longrightarrow> y < 60 \<Longrightarrow> road_row ! y ! x = (if y = 0 \<or> x = 2 then ROAD else EMPTY)"
    by (simp add: road_row_def)
  have l [simp]: "length road_row = 60" "\<And>y. y < 60 \<Longrightarrow> length (road_row ! y) = 60"
    by (simp_all add: road_row_def)
  have "bfsPathfinding road_row 0 0 65 58 =
     Inr [\<lparr>wp_x = 30, wp_y = 0\<rparr>, \<lparr>wp_x = 60, wp_y = 0\<rparr>, \<lparr>wp_x = 60, wp_y = 30\<rparr>,
           \<lparr>wp_x = 60, wp_y = 60\<rparr>, \<lparr>wp_x = 65, wp_y = 58\<rparr>]"
    by (simp add: bfsPathfinding_def jsRound_def GRID_SIZE_def bfs_loop.simps directions_def
        cellIsRoad_def COLS_def ROWS_def gridToPixel_def Let_def)
  then show ?thesis
    by (simp add: findPath_def pm_small_def new_PathCache_def cache_get_def Let_def)
qed

theorem findPath_minimum_hops_witness:
  "wf_grid (cityGrid pm_small) \<and> cache_sound pm_small \<and> cell_of 0 0 \<noteq> cell_of 65 58 \<and>
   road_path (cityGrid pm_small) (cell_of 0 0) [(1, 0), (2, 0), (2, 1), (2, 2)] (cell_of 65 58) \<and>
   (\<exists>pm'. findPath pm_small 0 0 65 58 =
      Inr ([\<lparr>wp_x = 30, wp_y = 0\<rparr>, \<lparr>wp_x = 60, wp_y = 0\<rparr>, \<lparr>wp_x = 60, wp_y = 30\<rparr>,
            \<lparr>wp_x = 60, wp_y = 60\<rparr>, \<lparr>wp_x = 65, wp_y = 58\<rparr>], pm')) \<and>
   \<not> (\<exists>p'. road_path (cityGrid pm_small) (cell_of 0 0) p' (cell_of 65 58) \<and> length p' < 4)"
proof -
  have wf: "wf_grid (cityGrid pm_small)" by (simp add: pm_small_def wf_road_row)
  have ne: "cell_of 0 0 \<noteq> cell_of 65 58" by (simp add: cell_0_0 cell_65_58)
  have rp: "road_path (cityGrid pm_small) (cell_of 0 0) [(1, 0), (2, 0), (2, 1), (2, 2)] (cell_of 65 58)"
    by (simp add: cell_0_0 cell_65_58 pm_small_def road_path_def grid_next_def adjacent4_def
        road_cell_def road_row_def COLS_def ROWS_def)
  from findPath_minimum_hops [OF wf sound_pm_small ne rp] obtain p pm' where
    p: "findPath pm_small 0 0 65 58 =
          Inr (map (\<lambda>c. \<lparr>wp_x = 30 * real_of_int (fst c), wp_y = 30 * real_of_int (snd c)\<rparr>) p
                 @ [\<lparr>wp_x = 65, wp_y = 58\<rparr>], pm')"
    and least: "\<forall>p'. road_path (cityGrid pm_small) (cell_of 0 0) p' (cell_of 65 58)
                  \<longrightarrow> length p \<le> length p'"
    by blast
  from p findPath_small_0_0
  have "map (\<lambda>c. \<lparr>wp_x = 30 * real_of_int (fst c), wp_y = 30 * real_of_int (snd c)\<rparr>) p
          @ [\<lparr>wp_x = 65, wp_y = 58\<rparr>]
        = [\<lparr>wp_x = 30, wp_y = 0\<rparr>, \<lparr>wp_x = 60, wp_y = 0\<rparr>, \<lparr>wp_x = 60, wp_y = 30\<rparr>,
           \<lparr>wp_x = 60, wp_y = 60\<rparr>, \<lparr>wp_x = 65, wp_y = 58\<rparr>]"
    by simp
  then have "length (map (\<lambda>c. \<lparr>wp_x = 30 * real_of_int (fst c), wp_y = 30 * real_of_int (snd c)\<rparr>) p
          @ [\<lparr>wp_x = 65, wp_y = 58\<rparr>]) = 5"
    by simp
  then have "length p = 4" by simp
  with least have "\<not> (\<exists>p'. road_path (cityGrid pm_small) (cell_of 0 0) p' (cell_of 65 58) \<and> length p' < 4)"
    by auto
  moreover from findPath_small_0_0
  have "\<exists>pm'. findPath pm_small 0 0 65 58 =
      Inr ([\<lparr>wp_x = 30, wp_y = 0\<rparr>, \<lparr>wp_x = 60, wp_y = 0\<rparr>, \<lparr>wp_x = 60, wp_y = 30\<rparr>,
            \<lparr>wp_x = 60, wp_y = 60\<rparr>, \<lparr>wp_x = 65, wp_y = 58\<rparr>], pm')" by blast
  ultimately show ?thesis using wf sound_pm_small ne rp by blast
qed

text \<open>
  C9. Caching is transparent and bounded. In a sound manager state on a well-formed grid,
  a \<open>findPath\<close> call returns what \<open>bfsPathfinding\<close> returns on the manager's grid and
  leaves the state sound, with at most \<open>maxSize\<close> entries. Asking again for the same
  coordinates right away returns the stored list whatever grid the manager then holds:
  the answer is read from the cache and no search of the grid takes place. After any run
  of calls \<open>ks\<close> the cached keys are the \<open>maxSize\<close> most recently used distinct keys of
  the earlier cache followed by \<open>ks\<close>, least recent first: each insertion into a full
  cache evicted the least recently used entry. A new manager is sound with capacity
  \<open>PATH_CACHE_SIZE\<close>, and \<open>clearCache\<close> and \<open>updateCityGrid\<close> keep soundness.
\<close>

theorem findPath_cache_transparent:
  assumes "wf_grid (cityGrid pm)" and "cache_sound pm"
  shows "(\<exists>path pm'. findPath pm sx sy ex ey = Inr (path, pm') \<and>
            bfsPathfinding (cityGrid pm) sx sy ex ey = Inr path \<and>
            cache_sound pm' \<and> cityGrid pm' = cityGrid pm \<and>
            length (cache (pm_cache pm')) \<le> maxSize (pm_cache pm') \<and>
            maxSize (pm_cache pm') = maxSize (pm_cache pm) \<and>
            (\<forall>g'. \<exists>pm''. findPath (pm'\<lparr>cityGrid := g'\<rparr>) sx sy ex ey = Inr (path, pm''))) \<and>
         (\<exists>pm'. findPaths pm ks = Inr pm' \<and> cache_sound pm' \<and>
            length (cached_keys pm') \<le> maxSize (pm_cache pm) \<and>
            cached_keys pm' = most_recent (maxSize (pm_cache pm)) (cached_keys pm @ ks)) \<and>
         cache_sound (new_PathfindingManager g) \<and>
         maxSize (pm_cache (new_PathfindingManager g)) = PATH_CACHE_SIZE \<and>
         cache_sound (clearCache pm) \<and> cache_sound (updateCityGrid pm g)"
proof -
  from findPath_total [OF assms, of sx sy ex ey] obtain path pm'
    where f: "findPath pm sx sy ex ey = Inr (path, pm')"
      and b: "bfsPathfinding (cityGrid pm) sx sy ex ey = Inr path" by blast
  note s = findPath_sound [OF assms(2) f]
  from s have len: "length (cache (pm_cache pm')) \<le> maxSize (pm_cache pm')"
    by (simp add: cache_sound_def)
  have hit: "\<exists>pm''. findPath (pm'\<lparr>cityGrid := g'\<rparr>) sx sy ex ey = Inr (path, pm'')" for g'
    using s findPath_hit [of "pm'\<lparr>cityGrid := g'\<rparr>" sx sy ex ey path] by simp
  from findPaths_keys [OF assms, of ks] obtain pmN where n:
    "findPaths pm ks = Inr pmN" "cache_sound pmN"
    "maxSize (pm_cache pmN) = maxSize (pm_cache pm)"
    "cached_keys pmN = most_recent (maxSize (pm_cache pm)) (cached_keys pm @ ks)" by blast
  from n(2,3) have "length (cached_keys pmN) \<le> maxSize (pm_cache pm)"
    by (simp add: cache_sound_def cached_keys_def)
  with n have 2: "\<exists>pm'. findPaths pm ks = Inr pm' \<and> cache_sound pm' \<and>
            length (cached_keys pm') \<le> maxSize (pm_cache pm) \<and>
            cached_keys pm' = most_recent (maxSize (pm_cache pm)) (cached_keys pm @ ks)" by blast
  have 1: "\<exists>path pm'. findPath pm sx sy ex ey = Inr (path, pm') \<and>
            bfsPathfinding (cityGrid pm) sx sy ex ey = Inr path \<and>
            cache_sound pm' \<and> cityGrid pm' = cityGrid pm \<and>
            length (cache (pm_cache pm')) \<le> maxSize (pm_cache pm') \<and>
            maxSize (pm_cache pm') = maxSize (pm_cache pm) \<and>
            (\<forall>g'. \<exists>pm''. findPath (pm'\<lparr>cityGrid := g'\<rparr>) sx sy ex ey = Inr (path, pm''))"
    using f b s len hit by blast
  have 3: "maxSize (pm_cache (new_PathfindingManager g)) = PATH_CACHE_SIZE"
    by (simp add: new_PathfindingManager_def new_PathCache_def)
  from 1 2 3 sound_new [of g] sound_clear [OF assms(2)] sound_update [OF assms(2), of g]
  show ?thesis by blast
qed

theorem findPath_cache_transparent_witness:
  "wf_grid (cityGrid pm_small) \<and> cache_sound pm_small \<and>
   (\<exists>pm'. findPaths pm_small [(0, 0, 65, 58), (0, 0, 30, 0), (150, 150, 65, 58), (0, 0, 30, 0)]
             = Inr pm' \<and>
          cached_keys pm' = [(150, 150, 65, 58), (0, 0, 30, 0)])"
proof -
  have wf: "wf_grid (cityGrid pm_small)" by (simp add: pm_small_def wf_road_row)
  have k: "cached_keys pm_small = []" "maxSize (pm_cache pm_small) = 2"
    by (simp_all add: cached_keys_def pm_small_def new_PathCache_def)
  have m: "most_recent 2 [(0, 0, 65, 58), (0, 0, 30, 0), (150, 150, 65, 58), (0, 0, 30, 0)]
             = [(150, 150, 65, 58), (0, 0, 30 :: real, 0 :: real)]"
    by (simp add: most_recent_def)
  from findPath_cache_transparent [OF wf sound_pm_small,
      of 0 0 0 0 "[(0, 0, 65, 58), (0, 0, 30, 0), (150, 150, 65, 58), (0, 0, 30, 0)]" road_row]
  have "\<exists>pm'. findPaths pm_small [(0, 0, 65, 58), (0, 0, 30, 0), (150, 150, 65, 58), (0, 0, 30, 0)]
             = Inr pm' \<and>
          cached_keys pm' = [(150, 150, 65, 58), (0, 0, 30, 0)]"
    unfolding k append_Nil m by blast
  with wf sound_pm_small show ?thesis by blast
qed

section \<open>SpatialIndex: findNearestStop\<close>

text \<open>
  \<^verbatim>\<open>findNearestStop\<close> with its helpers \<^verbatim>\<open>getStopsInRadius\<close>, \<^verbatim>\<open>findClosest\<close> and
  \<^verbatim>\<open>distance\<close>. The two nested \<^verbatim>\<open>for\<close> loops over \<open>dx\<close> and \<open>dy\<close> are list
  comprehensions over \<open>[-radius..radius]\<close>, in the source's order; the loop over the
  radius is \<open>ring_search\<close>.
\<close>

subsection \<open>Rounded arithmetic\<close>

text \<open>
  A JavaScript number is an IEEE double, and every arithmetic operation and
  \<^verbatim>\<open>Math.sqrt\<close> returns the exact result rounded to a double. \<^verbatim>\<open>findClosest\<close>
  compares distances with \<^verbatim>\<open>dist < minDist\<close>, so two stops whose exact distances
  differ by less than the rounding are not told apart. The functions of this section
  therefore take the rounding as a parameter \<open>fl\<close> and apply it to the result of each
  division, subtraction, multiplication, addition and square root. \<open>exact\<close> is no
  rounding. \<open>fl64\<close> rounds to the nearest number with a significand of 53 bits, a tie
  to the even significand, as IEEE doubles do; its exponent is unbounded, so it leaves
  out overflow and gradual underflow, which need magnitudes outside \<open>2^-1022\<close> to \<open>2^1024\<close>.
  \<open>rounds fl\<close> is the standard error bound of such a rounding: a relative error of at most
  \<open>2^-53\<close>. The products \<^verbatim>\<open>stop.x * GRID_SIZE\<close> are products of integers and
  \<^verbatim>\<open>Math.round\<close> returns the nearest integer of a double, a half rounding up; both are
  exact.
\<close>

type_synonym rounding = "real \<Rightarrow> real"

definition exact :: rounding where
  "exact x = x"

definition rne :: "real \<Rightarrow> int" where
  "rne m = (let f = \<lfloor>m\<rfloor> in
            if m - real_of_int f < 1 / 2 then f
            else if m - real_of_int f > 1 / 2 then f + 1
            else if even f then f else f + 1)"

definition fl64 :: rounding where
  "fl64 x = (if x = 0 then 0
             else let e = \<lfloor>log 2 \<bar>x\<bar>\<rfloor> - 52
                  in real_of_int (rne (x / 2 powr real_of_int e)) * 2 powr real_of_int e)"

definition rounds :: "rounding \<Rightarrow> bool" where
  "rounds fl = (\<forall>x. \<bar>fl x - x\<bar> \<le> \<bar>x\<bar> / 2 ^ 53)"

subsection \<open>The search\<close>

definition distance :: "rounding \<Rightarrow> real \<Rightarrow> real \<Rightarrow> real \<Rightarrow> real \<Rightarrow> real" where
  "distance fl x1 y1 x2 y2 =
     (let dx = fl (x2 - x1); dy = fl (y2 - y1) in fl (sqrt (fl (fl (dx * dx) + fl (dy * dy)))))"

definition stops_at :: "SpatialIndex \<Rightarrow> int \<times> int \<Rightarrow> Stop list" where
  "stops_at idx k = (case idx k of None \<Rightarrow> [] | Some cellStops \<Rightarrow> cellStops)"

definition getStopsInRadius :: "SpatialIndex \<Rightarrow> int \<Rightarrow> int \<Rightarrow> int \<Rightarrow> Stop list" where
  "getStopsInRadius idx centerX centerY radius =
     (if radius = 0 then stops_at idx (centerX, centerY)
      else concat (map (\<lambda>dx. concat (map (\<lambda>dy.
             if \<bar>dx\<bar> = radius \<or> \<bar>dy\<bar> = radius
             then (let x = centerX + dx; y = centerY + dy in
                   if x \<ge> 0 \<and> x < COLS \<and> y \<ge> 0 \<and> y < ROWS then stops_at idx (x, y) else [])
             else []) [- radius..radius])) [- radius..radius]))"

text \<open>
  The distance \<^verbatim>\<open>findClosest\<close> computes for a stop: from the query point to the stop's
  cell corner in pixels.
\<close>

definition stop_distance :: "rounding \<Rightarrow> real \<Rightarrow> real \<Rightarrow> Stop \<Rightarrow> real" where
  "stop_distance fl pixelX pixelY s =
     distance fl pixelX pixelY (real_of_int (stop_x s * GRID_SIZE)) (real_of_int (stop_y s * GRID_SIZE))"

text \<open>\<open>minDist\<close> starts at \<^verbatim>\<open>Infinity\<close>, here \<open>None\<close>: every distance is below it.\<close>

fun findClosest_loop ::
  "rounding \<Rightarrow> Stop list \<Rightarrow> real \<Rightarrow> real \<Rightarrow> Stop option \<Rightarrow> real option \<Rightarrow> Stop option" where
  "findClosest_loop fl [] pixelX pixelY nearest minDist = nearest"
| "findClosest_loop fl (s # ss) pixelX pixelY nearest minDist =
     (let dist = stop_distance fl pixelX pixelY s in
      if (case minDist of None \<Rightarrow> True | Some m \<Rightarrow> dist < m)
      then findClosest_loop fl ss pixelX pixelY (Some s) (Some dist)
      else findClosest_loop fl ss pixelX pixelY nearest minDist)"

definition findClosest :: "rounding \<Rightarrow> Stop list \<Rightarrow> real \<Rightarrow> real \<Rightarrow> Stop option" where
  "findClosest fl ss pixelX pixelY = findClosest_loop fl ss pixelX pixelY None None"

function ring_search ::
  "rounding \<Rightarrow> SpatialIndex \<Rightarrow> int \<Rightarrow> int \<Rightarrow> real \<Rightarrow> real \<Rightarrow> int \<Rightarrow> int \<Rightarrow> Stop option" where
  "ring_search fl idx gridX gridY pixelX pixelY radius maxRadius =
     (if radius < maxRadius
      then (let ss = getStopsInRadius idx gridX gridY radius in
            if length ss > 0 then findClosest fl ss pixelX pixelY
            else ring_search fl idx gridX gridY pixelX pixelY (radius + 1) maxRadius)
      else None)"
  by pat_completeness auto
termination
  by (relation "measure (\<lambda>(fl, idx, gx, gy, px, py, r, m). nat (m - r))") auto

declare ring_search.simps [simp del]

definition findNearestStop :: "rounding \<Rightarrow> SpatialIndex \<Rightarrow> real \<Rightarrow> real \<Rightarrow> Stop option" where
  "findNearestStop fl idx pixelX pixelY =
     (let canvasSize = real_of_int (COLS * GRID_SIZE) in
      if pixelX < 0 \<or> pixelY < 0 \<or> pixelX \<ge> canvasSize \<or> pixelY \<ge> canvasSize then None
      else let gridX = jsRound (fl (pixelX / real_of_int GRID_SIZE));
               gridY = jsRound (fl (pixelY / real_of_int GRID_SIZE));
               maxRadius = \<lceil>fl (sqrt (real_of_int (COLS * COLS + ROWS * ROWS)))\<rceil>
           in ring_search fl idx gridX gridY pixelX pixelY 0 maxRadius)"

subsection \<open>What the claim speaks of\<close>

text \<open>
  The Chebyshev distance of two cells; the ring of radius \<open>r\<close> around a cell: the stops
  the index holds for the grid cells at Chebyshev distance exactly \<open>r\<close> from it (for
  \<open>r = 0\<close> the cell itself, which is off the grid when the point rounds up to column or
  row 60); the Euclidean distance from a point to a stop's pixel position, 30 times its
  cell; and the same distance computed with every operation rounded.
\<close>

definition chebyshev :: "cell \<Rightarrow> cell \<Rightarrow> int" where
  "chebyshev a b = max \<bar>fst b - fst a\<bar> \<bar>snd b - snd a\<bar>"

definition in_grid :: "cell \<Rightarrow> bool" where
  "in_grid c = (0 \<le> fst c \<and> fst c < 60 \<and> 0 \<le> snd c \<and> snd c < 60)"

definition ring_stops :: "SpatialIndex \<Rightarrow> cell \<Rightarrow> int \<Rightarrow> Stop set" where
  "ring_stops idx c r =
     {s. \<exists>k. chebyshev c k = r \<and> (r = 0 \<or> in_grid k) \<and> s \<in> set (stops_at idx k)}"

definition euclid :: "real \<Rightarrow> real \<Rightarrow> Stop \<Rightarrow> real" where
  "euclid px py t =
     sqrt ((30 * real_of_int (stop_x t) - px)\<^sup>2 + (30 * real_of_int (stop_y t) - py)\<^sup>2)"

definition rounded_euclid :: "rounding \<Rightarrow> real \<Rightarrow> real \<Rightarrow> Stop \<Rightarrow> real" where
  "rounded_euclid fl px py t =
     fl (sqrt (fl (fl (fl (30 * real_of_int (stop_x t) - px) * fl (30 * real_of_int (stop_x t) - px))
                 + fl (fl (30 * real_of_int (stop_y t) - py) * fl (30 * real_of_int (stop_y t) - py)))))"

subsection \<open>Rounding\<close>

lemma rounds_exact: "rounds exact"
  by (simp add: rounds_def exact_def)

lemma rne_near: "\<bar>real_of_int (rne m) - m\<bar> \<le> 1 / 2"
  unfolding rne_def Let_def by (auto simp add: abs_if) linarith+

lemma floor_log2_bounds:
  assumes "x \<noteq> 0"
  shows "2 powr real_of_int \<lfloor>log 2 \<bar>x\<bar>\<rfloor> \<le> \<bar>x\<bar>"
proof -
  from assms have pos: "0 < \<bar>x\<bar>" by simp
  have "real_of_int \<lfloor>log 2 \<bar>x\<bar>\<rfloor> \<le> log 2 \<bar>x\<bar>" by simp
  then have "2 powr real_of_int \<lfloor>log 2 \<bar>x\<bar>\<rfloor> \<le> 2 powr log 2 \<bar>x\<bar>" by simp
  with pos show ?thesis by simp
qed

lemma rounds_fl64: "rounds fl64"
  unfolding rounds_def
proof
  fix x :: real
  show "\<bar>fl64 x - x\<bar> \<le> \<bar>x\<bar> / 2 ^ 53"
  proof (cases "x = 0")
    case True
    then show ?thesis by (simp add: fl64_def)
  next
    case False
    define E where "E = \<lfloor>log 2 \<bar>x\<bar>\<rfloor>"
    define u where "u = 2 powr real_of_int (E - 52)"
    have u: "0 < u" by (simp add: u_def)
    from False have f: "fl64 x = real_of_int (rne (x / u)) * u"
      by (simp add: fl64_def E_def u_def Let_def)
    from u have "fl64 x - x = (real_of_int (rne (x / u)) - x / u) * u"
      by (simp add: f left_diff_distrib)
    with u have "\<bar>fl64 x - x\<bar> = \<bar>real_of_int (rne (x / u)) - x / u\<bar> * u"
      by (simp add: abs_mult)
    also have "\<dots> \<le> 1 / 2 * u" using rne_near [of "x / u"] u by (intro mult_right_mono) simp_all
    also have "\<dots> = 2 powr real_of_int E / 2 ^ 53"
      by (simp add: u_def powr_diff powr_realpow [symmetric])
    also have "\<dots> \<le> \<bar>x\<bar> / 2 ^ 53"
      using floor_log2_bounds [OF False] by (simp add: E_def divide_right_mono)
    finally show ?thesis .
  qed
qed

text \<open>A rounding keeps a non-negative number within the factors \<open>1 - 2^-53\<close> and \<open>1 + 2^-53\<close>.\<close>

lemma rounds_abs:
  assumes "rounds fl"
  shows "\<bar>x\<bar> * (1 - 1 / 2 ^ 53) \<le> \<bar>fl x\<bar> \<and> \<bar>fl x\<bar> \<le> \<bar>x\<bar> * (1 + 1 / 2 ^ 53)"
proof -
  from assms have "\<bar>fl x - x\<bar> \<le> \<bar>x\<bar> / 2 ^ 53" by (simp add: rounds_def)
  then show ?thesis by (simp add: algebra_simps abs_if split: if_splits)
qed

lemma rounds_nonneg:
  assumes "rounds fl" and "0 \<le> x"
  shows "x * (1 - 1 / 2 ^ 53) \<le> fl x \<and> fl x \<le> x * (1 + 1 / 2 ^ 53)"
proof -
  from assms(1) have "\<bar>fl x - x\<bar> \<le> \<bar>x\<bar> / 2 ^ 53" by (simp add: rounds_def)
  with assms(2) show ?thesis by (simp add: algebra_simps abs_if split: if_splits)
qed

lemma maxRadius_85:
  assumes "rounds fl"
  shows "\<lceil>fl (sqrt (real_of_int (COLS * COLS + ROWS * ROWS)))\<rceil> = 85"
proof -
  have lo: "841 / 10 < sqrt 7200" by (rule real_less_rsqrt) (simp add: power2_eq_square)
  have hi: "sqrt 7200 \<le> 849 / 10" by (rule real_le_lsqrt) (simp_all add: power2_eq_square)
  from lo have pos: "0 \<le> sqrt 7200" by simp
  note b = rounds_nonneg [OF assms pos]
  from b lo have "84 < fl (sqrt 7200)" by (simp add: algebra_simps)
  moreover from b hi have "fl (sqrt 7200) \<le> 85" by (simp add: algebra_simps)
  ultimately have "\<lceil>fl (sqrt 7200)\<rceil> = 85" by (intro ceiling_unique) simp_all
  then show ?thesis by (simp add: COLS_def ROWS_def)
qed

lemma jsRound_cell_bounds:
  assumes "rounds fl" and "0 \<le> x" and "x < real_of_int (COLS * GRID_SIZE)"
  shows "0 \<le> jsRound (fl (x / real_of_int GRID_SIZE)) \<and> jsRound (fl (x / real_of_int GRID_SIZE)) \<le> 60"
proof -
  from assms(2,3) have y: "0 \<le> x / 30" "x / 30 < 60"
    by (simp_all add: COLS_def GRID_SIZE_def)
  note b = rounds_nonneg [OF assms(1) y(1)]
  from b y have "0 \<le> fl (x / 30) + 1 / 2" "fl (x / 30) + 1 / 2 < 61"
    by (simp_all add: algebra_simps)
  then have "0 \<le> \<lfloor>fl (x / 30) + 1 / 2\<rfloor>" "\<lfloor>fl (x / 30) + 1 / 2\<rfloor> < 61"
    by (simp_all add: floor_less_iff)
  then show ?thesis by (simp add: jsRound_def GRID_SIZE_def)
qed

subsection \<open>Rings\<close>

lemma set_getStopsInRadius:
  assumes "0 \<le> r"
  shows "set (getStopsInRadius idx gx gy r) =
           (if r = 0 then set (stops_at idx (gx, gy))
            else {s. \<exists>k. chebyshev (gx, gy) k = r \<and> in_grid k \<and> s \<in> set (stops_at idx k)})"
proof (cases "r = 0")
  case True
  then show ?thesis by (simp add: getStopsInRadius_def)
next
  case False
  with assms have pos: "0 < r" by simp
  have "set (getStopsInRadius idx gx gy r) =
        {s. \<exists>dx dy. - r \<le> dx \<and> dx \<le> r \<and> - r \<le> dy \<and> dy \<le> r \<and> (\<bar>dx\<bar> = r \<or> \<bar>dy\<bar> = r) \<and>
              in_grid (gx + dx, gy + dy) \<and> s \<in> set (stops_at idx (gx + dx, gy + dy))}"
  proof (intro set_eqI iffI)
    fix s assume "s \<in> set (getStopsInRadius idx gx gy r)"
    with False obtain dx dy where "dx \<in> {- r..r}" "dy \<in> {- r..r}"
      "s \<in> set (if \<bar>dx\<bar> = r \<or> \<bar>dy\<bar> = r
             then (let x = gx + dx; y = gy + dy in
                   if x \<ge> 0 \<and> x < COLS \<and> y \<ge> 0 \<and> y < ROWS then stops_at idx (x, y) else [])
             else [])"
      by (auto simp add: getStopsInRadius_def)
    then show "s \<in> {s. \<exists>dx dy. - r \<le> dx \<and> dx \<le> r \<and> - r \<le> dy \<and> dy \<le> r \<and> (\<bar>dx\<bar> = r \<or> \<bar>dy\<bar> = r) \<and>
              in_grid (gx + dx, gy + dy) \<and> s \<in> set (stops_at idx (gx + dx, gy + dy))}"
      by (simp add: in_grid_def COLS_def ROWS_def Let_def split: if_splits) blast+
  next
    fix s assume "s \<in> {s. \<exists>dx dy. - r \<le> dx \<and> dx \<le> r \<and> - r \<le> dy \<and> dy \<le> r \<and> (\<bar>dx\<bar> = r \<or> \<bar>dy\<bar> = r) \<and>
              in_grid (gx + dx, gy + dy) \<and> s \<in> set (stops_at idx (gx + dx, gy + dy))}"
    then obtain dx dy where d: "dx \<in> {- r..r}" "dy \<in> {- r..r}" "\<bar>dx\<bar> = r \<or> \<bar>dy\<bar> = r"
      "in_grid (gx + dx, gy + dy)" "s \<in> set (stops_at idx (gx + dx, gy + dy))" by auto
    then have "s \<in> set (if \<bar>dx\<bar> = r \<or> \<bar>dy\<bar> = r
             then (let x = gx + dx; y = gy + dy in
                   if x \<ge> 0 \<and> x < COLS \<and> y \<ge> 0 \<and> y < ROWS then stops_at idx (x, y) else [])
             else [])"
      by (simp add: in_grid_def COLS_def ROWS_def Let_def)
    with d(1,2) False show "s \<in> set (getStopsInRadius idx gx gy r)"
      unfolding getStopsInRadius_def
      by simp (rule bexI [of _ dx], rule bexI [of _ dy], auto)
  qed
  also have "\<dots> = {s. \<exists>k. chebyshev (gx, gy) k = r \<and> in_grid k \<and> s \<in> set (stops_at idx k)}"
  proof (intro Collect_cong iffI)
    fix s
    assume "\<exists>dx dy. - r \<le> dx \<and> dx \<le> r \<and> - r \<le> dy \<and> dy \<le> r \<and> (\<bar>dx\<bar> = r \<or> \<bar>dy\<bar> = r) \<and>
              in_grid (gx + dx, gy + dy) \<and> s \<in> set (stops_at idx (gx + dx, gy + dy))"
    then obtain dx dy where d: "- r \<le> dx" "dx \<le> r" "- r \<le> dy" "dy \<le> r" "\<bar>dx\<bar> = r \<or> \<bar>dy\<bar> = r"
      "in_grid (gx + dx, gy + dy)" "s \<in> set (stops_at idx (gx + dx, gy + dy))" by blast
    then have "chebyshev (gx, gy) (gx + dx, gy + dy) = r" by (auto simp: chebyshev_def)
    with d show "\<exists>k. chebyshev (gx, gy) k = r \<and> in_grid k \<and> s \<in> set (stops_at idx k)" by blast
  next
    fix s
    assume "\<exists>k. chebyshev (gx, gy) k = r \<and> in_grid k \<and> s \<in> set (stops_at idx k)"
    then obtain kx ky where k: "chebyshev (gx, gy) (kx, ky) = r" "in_grid (kx, ky)"
      "s \<in> set (stops_at idx (kx, ky))" by auto
    let ?dx = "kx - gx" and ?dy = "ky - gy"
    from k(1) have "- r \<le> ?dx \<and> ?dx \<le> r \<and> - r \<le> ?dy \<and> ?dy \<le> r \<and> (\<bar>?dx\<bar> = r \<or> \<bar>?dy\<bar> = r)"
      by (auto simp: chebyshev_def max_def split: if_splits)
    moreover have "(gx + ?dx, gy + ?dy) = (kx, ky)" by simp
    ultimately show "\<exists>dx dy. - r \<le> dx \<and> dx \<le> r \<and> - r \<le> dy \<and> dy \<le> r \<and> (\<bar>dx\<bar> = r \<or> \<bar>dy\<bar> = r) \<and>
              in_grid (gx + dx, gy + dy) \<and> s \<in> set (stops_at idx (gx + dx, gy + dy))"
      using k(2,3) by metis
  qed
  finally show ?thesis using False by simp
qed


lemma chebyshev_zero: "chebyshev c k = 0 \<longleftrightarrow> k = c"
  by (cases c, cases k) (auto simp: chebyshev_def max_def)

lemma ring_getStopsInRadius:
  assumes "0 \<le> r"
  shows "set (getStopsInRadius idx gx gy r) = ring_stops idx (gx, gy) r"
proof (cases "r = 0")
  case True
  then show ?thesis
    by (auto simp add: set_getStopsInRadius ring_stops_def chebyshev_zero)
next
  case False
  with assms show ?thesis
    by (simp add: set_getStopsInRadius ring_stops_def)
qed

lemma chebyshev_in_grid:
  assumes "0 \<le> gx" "gx \<le> 60" "0 \<le> gy" "gy \<le> 60" "in_grid k"
  shows "0 \<le> chebyshev (gx, gy) k \<and> chebyshev (gx, gy) k < 85"
  using assms by (cases k) (auto simp: chebyshev_def in_grid_def)

subsection \<open>The closest stop of a list\<close>

lemma findClosest_loop_min:
  assumes "(nearest = None \<and> minDist = None \<and> C = {}) \<or>
           (\<exists>s. nearest = Some s \<and> minDist = Some (stop_distance fl px py s) \<and> s \<in> C \<and>
                (\<forall>t \<in> C. stop_distance fl px py s \<le> stop_distance fl px py t))"
  shows "if C \<union> set ss = {} then findClosest_loop fl ss px py nearest minDist = None
         else \<exists>s. findClosest_loop fl ss px py nearest minDist = Some s \<and> s \<in> C \<union> set ss \<and>
                  (\<forall>t \<in> C \<union> set ss. stop_distance fl px py s \<le> stop_distance fl px py t)"
  using assms
proof (induction ss arbitrary: nearest minDist C)
  case Nil
  then show ?case by auto
next
  case (Cons a ss)
  let ?d = "stop_distance fl px py a"
  show ?case
  proof (cases "case minDist of None \<Rightarrow> True | Some m \<Rightarrow> ?d < m")
    case True
    have acc: "(Some a = None \<and> Some ?d = None \<and> insert a C = {}) \<or>
           (\<exists>s. Some a = Some s \<and> Some ?d = Some (stop_distance fl px py s) \<and> s \<in> insert a C \<and>
                (\<forall>t \<in> insert a C. stop_distance fl px py s \<le> stop_distance fl px py t))"
      using Cons.prems True by (auto split: option.splits)
    from Cons.IH [OF acc] True show ?thesis
      by (simp add: Let_def)
  next
    case False
    then obtain m where m: "minDist = Some m" "\<not> ?d < m" by (auto split: option.splits)
    with Cons.prems obtain s where s: "nearest = Some s" "m = stop_distance fl px py s" "s \<in> C"
      "\<forall>t \<in> C. stop_distance fl px py s \<le> stop_distance fl px py t" by auto
    have acc: "(nearest = None \<and> minDist = None \<and> insert a C = {}) \<or>
           (\<exists>s. nearest = Some s \<and> minDist = Some (stop_distance fl px py s) \<and> s \<in> insert a C \<and>
                (\<forall>t \<in> insert a C. stop_distance fl px py s \<le> stop_distance fl px py t))"
      using m s by auto
    from Cons.IH [OF acc] False show ?thesis
      by (simp add: Let_def)
  qed
qed

lemma findClosest_min:
  "ss \<noteq> [] \<Longrightarrow>
   \<exists>s. findClosest fl ss px py = Some s \<and> s \<in> set ss \<and>
       (\<forall>t \<in> set ss. stop_distance fl px py s \<le> stop_distance fl px py t)"
  using findClosest_loop_min [of None None "{}" fl px py ss]
  by (simp add: findClosest_def)

lemma ring_search_none:
  "(\<forall>r'. r \<le> r' \<and> r' < m \<longrightarrow> getStopsInRadius idx gx gy r' = []) \<Longrightarrow>
   ring_search fl idx gx gy px py r m = None"
proof (induction fl idx gx gy px py r m rule: ring_search.induct)
  case (1 fl idx gx gy px py r m)
  show ?case
  proof (cases "r < m")
    case True
    with "1.prems" have e: "getStopsInRadius idx gx gy r = []" by simp
    from "1.prems" have "\<forall>r'. r + 1 \<le> r' \<and> r' < m \<longrightarrow> getStopsInRadius idx gx gy r' = []"
      by simp
    from "1.IH" [OF True refl _ this] e True show ?thesis
      by (simp add: ring_search.simps [of fl idx gx gy px py r m])
  next
    case False
    then show ?thesis by (simp add: ring_search.simps [of fl idx gx gy px py r m])
  qed
qed

lemma ring_search_first:
  "r \<le> r0 \<Longrightarrow> r0 < m \<Longrightarrow> getStopsInRadius idx gx gy r0 \<noteq> [] \<Longrightarrow>
   (\<forall>r'. r \<le> r' \<and> r' < r0 \<longrightarrow> getStopsInRadius idx gx gy r' = []) \<Longrightarrow>
   ring_search fl idx gx gy px py r m = findClosest fl (getStopsInRadius idx gx gy r0) px py"
proof (induction fl idx gx gy px py r m rule: ring_search.induct)
  case (1 fl idx gx gy px py r m)
  from "1.prems" have rm: "r < m" by simp
  show ?case
  proof (cases "r = r0")
    case True
    with "1.prems" rm show ?thesis
      by (subst ring_search.simps) simp
  next
    case False
    with "1.prems" have lt: "r + 1 \<le> r0" and e: "getStopsInRadius idx gx gy r = []" by auto
    from "1.prems" have "\<forall>r'. r + 1 \<le> r' \<and> r' < r0 \<longrightarrow> getStopsInRadius idx gx gy r' = []"
      by simp
    from "1.IH" [OF rm refl _ lt "1.prems"(2,3) this] e rm show ?thesis
      by (simp add: ring_search.simps [of fl idx gx gy px py r m])
  qed
qed



subsection \<open>Computed and true distance\<close>

lemma stop_distance_rounded: "stop_distance fl px py t = rounded_euclid fl px py t"
  by (simp add: stop_distance_def distance_def rounded_euclid_def GRID_SIZE_def Let_def
      mult.commute)

lemma rounded_euclid_exact: "rounded_euclid exact px py t = euclid px py t"
  by (simp add: rounded_euclid_def euclid_def exact_def power2_eq_square)

lemma scale_bounds:
  assumes "rounds fl" and "0 \<le> a" and "0 \<le> l" and "a * l \<le> x" and "x \<le> a * h"
  shows "a * (l * (1 - 1 / 2 ^ 53)) \<le> fl x \<and> fl x \<le> a * (h * (1 + 1 / 2 ^ 53))"
proof -
  from assms(2,3,4) have x: "0 \<le> x" by (meson mult_nonneg_nonneg order_trans)
  note b = rounds_nonneg [OF assms(1) x]
  have "a * l * (1 - 1 / 2 ^ 53) \<le> x * (1 - 1 / 2 ^ 53)"
    using assms(4) by (intro mult_right_mono) simp_all
  moreover have "x * (1 + 1 / 2 ^ 53) \<le> a * h * (1 + 1 / 2 ^ 53)"
    using assms(5) by (intro mult_right_mono) simp_all
  ultimately show ?thesis using b by (simp add: mult.assoc)
qed

lemma square_bounds:
  assumes "rounds fl"
  shows "v * v * ((1 - 1 / 2 ^ 53) * (1 - 1 / 2 ^ 53)) \<le> fl v * fl v \<and>
         fl v * fl v \<le> v * v * ((1 + 1 / 2 ^ 53) * (1 + 1 / 2 ^ 53))"
proof -
  note b = rounds_abs [OF assms, of v]
  have lo: "(0::real) \<le> 1 - 1 / 2 ^ 53" by simp
  have "(\<bar>v\<bar> * (1 - 1 / 2 ^ 53)) * (\<bar>v\<bar> * (1 - 1 / 2 ^ 53)) \<le> \<bar>fl v\<bar> * \<bar>fl v\<bar>"
    using b lo by (intro mult_mono) simp_all
  moreover have "\<bar>fl v\<bar> * \<bar>fl v\<bar> \<le> (\<bar>v\<bar> * (1 + 1 / 2 ^ 53)) * (\<bar>v\<bar> * (1 + 1 / 2 ^ 53))"
    using b by (intro mult_mono) simp_all
  moreover have "\<bar>fl v\<bar> * \<bar>fl v\<bar> = fl v * fl v" by simp
  moreover have "(\<bar>v\<bar> * (1 - 1 / 2 ^ 53)) * (\<bar>v\<bar> * (1 - 1 / 2 ^ 53))
                   = v * v * ((1 - 1 / 2 ^ 53) * (1 - 1 / 2 ^ 53))"
    using abs_mult_self [of v] by (simp only: mult.assoc mult.left_commute)
  moreover have "(\<bar>v\<bar> * (1 + 1 / 2 ^ 53)) * (\<bar>v\<bar> * (1 + 1 / 2 ^ 53))
                   = v * v * ((1 + 1 / 2 ^ 53) * (1 + 1 / 2 ^ 53))"
    using abs_mult_self [of v] by (simp only: mult.assoc mult.left_commute)
  ultimately show ?thesis by simp
qed

lemma rounded_euclid_bounds:
  assumes r: "rounds fl"
  shows "euclid px py t * (1 - 1 / 2 ^ 53) ^ 3 \<le> rounded_euclid fl px py t \<and>
         rounded_euclid fl px py t \<le> euclid px py t * (1 + 1 / 2 ^ 53) ^ 3"
proof -
  define lo :: real where "lo = 1 - 1 / 2 ^ 53"
  define hi :: real where "hi = 1 + 1 / 2 ^ 53"
  define v where "v = 30 * real_of_int (stop_x t) - px"
  define w where "w = 30 * real_of_int (stop_y t) - py"
  define P where "P = fl (fl v * fl v)"
  define Q where "Q = fl (fl w * fl w)"
  define T where "T = fl (P + Q)"
  define d2 where "d2 = v * v + w * w"
  have lo: "0 \<le> lo" and hi: "0 \<le> hi" by (simp_all add: lo_def hi_def)
  have d2: "0 \<le> d2" by (simp add: d2_def)
  have vv: "0 \<le> v * v" and ww: "0 \<le> w * w" by simp_all
  have P: "v * v * (lo * lo * lo) \<le> P \<and> P \<le> v * v * (hi * hi * hi)"
    using scale_bounds [OF r vv _ conjunct1 [OF square_bounds [OF r, of v]]
        conjunct2 [OF square_bounds [OF r, of v]]] lo
    by (simp add: P_def lo_def hi_def)
  have Q: "w * w * (lo * lo * lo) \<le> Q \<and> Q \<le> w * w * (hi * hi * hi)"
    using scale_bounds [OF r ww _ conjunct1 [OF square_bounds [OF r, of w]]
        conjunct2 [OF square_bounds [OF r, of w]]] lo
    by (simp add: Q_def lo_def hi_def)
  from P Q have S: "d2 * (lo * lo * lo) \<le> P + Q" "P + Q \<le> d2 * (hi * hi * hi)"
    by (simp_all add: d2_def distrib_right)
  from lo have l3: "0 \<le> lo * lo * lo" by simp
  have T: "d2 * (lo * lo * lo * lo) \<le> T \<and> T \<le> d2 * (hi * hi * hi * hi)"
    using scale_bounds [OF r d2 l3 S] by (simp add: T_def lo_def hi_def)
  have sq_lo: "sqrt (d2 * (lo * lo * lo * lo)) = sqrt d2 * (lo * lo)"
  proof -
    have "lo * lo * lo * lo = (lo * lo)\<^sup>2" by (simp add: power2_eq_square)
    then show ?thesis using lo by (simp add: real_sqrt_mult)
  qed
  have sq_hi: "sqrt (d2 * (hi * hi * hi * hi)) = sqrt d2 * (hi * hi)"
  proof -
    have "hi * hi * hi * hi = (hi * hi)\<^sup>2" by (simp add: power2_eq_square)
    then show ?thesis using hi by (simp add: real_sqrt_mult)
  qed
  from T have R: "sqrt d2 * (lo * lo) \<le> sqrt T" "sqrt T \<le> sqrt d2 * (hi * hi)"
    unfolding sq_lo [symmetric] sq_hi [symmetric] by simp_all
  have sd: "0 \<le> sqrt d2" using d2 by simp
  from lo have l2: "0 \<le> lo * lo" by simp
  have D: "sqrt d2 * (lo * lo * lo) \<le> fl (sqrt T) \<and> fl (sqrt T) \<le> sqrt d2 * (hi * hi * hi)"
    using scale_bounds [OF r sd l2 R] by (simp add: lo_def hi_def)
  have e: "euclid px py t = sqrt d2"
    by (simp add: euclid_def d2_def v_def w_def power2_eq_square)
  have c: "rounded_euclid fl px py t = fl (sqrt T)"
    by (simp add: rounded_euclid_def T_def P_def Q_def v_def w_def)
  from D show ?thesis
    unfolding e c by (simp add: lo_def hi_def power3_eq_cube mult.assoc)
qed

lemma rounding_factor: "(1 + 1 / 2 ^ 53) ^ 3 \<le> (1 + 1 / 2 ^ 50) * (1 - 1 / 2 ^ 53 :: real) ^ 3"
  by (simp add: power3_eq_cube field_simps)

lemma near_minimum:
  assumes r: "rounds fl"
    and le: "rounded_euclid fl px py s \<le> rounded_euclid fl px py t"
  shows "euclid px py s \<le> (1 + 1 / 2 ^ 50) * euclid px py t"
proof -
  define lo3 :: real where "lo3 = (1 - 1 / 2 ^ 53) ^ 3"
  define hi3 :: real where "hi3 = (1 + 1 / 2 ^ 53) ^ 3"
  have pos: "0 < lo3" by (simp add: lo3_def)
  have dt: "0 \<le> euclid px py t" by (simp add: euclid_def)
  from rounded_euclid_bounds [OF r, of px py s] rounded_euclid_bounds [OF r, of px py t] le
  have "euclid px py s * lo3 \<le> euclid px py t * hi3" by (simp add: lo3_def hi3_def)
  also have "\<dots> \<le> euclid px py t * ((1 + 1 / 2 ^ 50) * lo3)"
    using rounding_factor dt unfolding lo3_def hi3_def by (intro mult_left_mono)
  finally have "euclid px py s * lo3 \<le> ((1 + 1 / 2 ^ 50) * euclid px py t) * lo3"
    by (simp add: mult.assoc mult.left_commute)
  with pos show ?thesis by (simp only: mult_le_cancel_right_pos)
qed

text \<open>
  C6. Under a rounding \<open>fl\<close> with relative error at most \<open>2^-53\<close>: a query point outside
  the canvas gets no stop. For a query point inside it, the result is \<open>None\<close> only when
  no grid cell of the index holds a stop; otherwise it is a stop \<open>s\<close> of the ring of some
  radius \<open>r\<close> below the grid diagonal around the cell the point rounds to, every ring of
  smaller radius holds no stop, no stop of ring \<open>r\<close> has a smaller computed distance to
  the query point than \<open>s\<close>, and the true Euclidean distance of \<open>s\<close> exceeds that of no
  stop of the ring by more than the factor \<open>1 + 2^-50\<close>; in exact arithmetic \<open>s\<close> has the
  minimum true Euclidean distance of the ring. At every radius the stops examined are
  exactly those of the ring, the cells at Chebyshev distance exactly \<open>r\<close>.
\<close>

theorem findNearestStop_first_ring:
  assumes "rounds fl"
  shows "(pixelX < 0 \<or> pixelY < 0 \<or> pixelX \<ge> real_of_int (COLS * GRID_SIZE)
            \<or> pixelY \<ge> real_of_int (COLS * GRID_SIZE)
          \<longrightarrow> findNearestStop fl idx pixelX pixelY = None) \<and>
         (0 \<le> pixelX \<and> pixelX < real_of_int (COLS * GRID_SIZE) \<and>
          0 \<le> pixelY \<and> pixelY < real_of_int (COLS * GRID_SIZE)
          \<longrightarrow> (let c = (\<lfloor>fl (pixelX / 30) + 1 / 2\<rfloor>, \<lfloor>fl (pixelY / 30) + 1 / 2\<rfloor>) in
               (case findNearestStop fl idx pixelX pixelY of
                  None \<Rightarrow> \<forall>k. in_grid k \<longrightarrow> stops_at idx k = []
                | Some s \<Rightarrow>
                   \<exists>r. 0 \<le> r \<and> r < \<lceil>sqrt (real_of_int (COLS * COLS + ROWS * ROWS))\<rceil> \<and>
                       s \<in> ring_stops idx c r \<and>
                       (\<forall>r'. 0 \<le> r' \<and> r' < r \<longrightarrow> ring_stops idx c r' = {}) \<and>
                       (\<forall>t \<in> ring_stops idx c r.
                          rounded_euclid fl pixelX pixelY s \<le> rounded_euclid fl pixelX pixelY t \<and>
                          euclid pixelX pixelY s \<le> (1 + 1 / 2 ^ 50) * euclid pixelX pixelY t \<and>
                          (fl = exact \<longrightarrow> euclid pixelX pixelY s \<le> euclid pixelX pixelY t))) \<and>
               (\<forall>r. 0 \<le> r \<longrightarrow> set (getStopsInRadius idx (fst c) (snd c) r) = ring_stops idx c r)))"
proof (intro conjI impI)
  assume "pixelX < 0 \<or> pixelY < 0 \<or> pixelX \<ge> real_of_int (COLS * GRID_SIZE)
            \<or> pixelY \<ge> real_of_int (COLS * GRID_SIZE)"
  then show "findNearestStop fl idx pixelX pixelY = None"
    by (auto simp add: findNearestStop_def Let_def)
next
  assume inb: "0 \<le> pixelX \<and> pixelX < real_of_int (COLS * GRID_SIZE) \<and>
          0 \<le> pixelY \<and> pixelY < real_of_int (COLS * GRID_SIZE)"
  let ?gx = "jsRound (fl (pixelX / real_of_int GRID_SIZE))"
  let ?gy = "jsRound (fl (pixelY / real_of_int GRID_SIZE))"
  let ?G = "\<lambda>r. getStopsInRadius idx ?gx ?gy r"
  let ?c = "(\<lfloor>fl (pixelX / 30) + 1 / 2\<rfloor>, \<lfloor>fl (pixelY / 30) + 1 / 2\<rfloor>)"
  have c: "?c = (?gx, ?gy)" by (simp add: jsRound_def GRID_SIZE_def)
  have m: "\<lceil>sqrt (real_of_int (COLS * COLS + ROWS * ROWS))\<rceil> = 85"
    using maxRadius_85 [OF rounds_exact] by (simp add: exact_def)
  from inb have f: "findNearestStop fl idx pixelX pixelY = ring_search fl idx ?gx ?gy pixelX pixelY 0 85"
    unfolding findNearestStop_def Let_def maxRadius_85 [OF assms] by (simp add: not_le)
  from inb have gb: "0 \<le> ?gx" "?gx \<le> 60" "0 \<le> ?gy" "?gy \<le> 60"
    using jsRound_cell_bounds [OF assms, of pixelX] jsRound_cell_bounds [OF assms, of pixelY]
    by simp_all
  note ring = ring_getStopsInRadius [of _ idx ?gx ?gy]
  have res: "case findNearestStop fl idx pixelX pixelY of
                  None \<Rightarrow> \<forall>k. in_grid k \<longrightarrow> stops_at idx k = []
                | Some s \<Rightarrow>
                   \<exists>r. 0 \<le> r \<and> r < 85 \<and>
                       s \<in> ring_stops idx (?gx, ?gy) r \<and>
                       (\<forall>r'. 0 \<le> r' \<and> r' < r \<longrightarrow> ring_stops idx (?gx, ?gy) r' = {}) \<and>
                       (\<forall>t \<in> ring_stops idx (?gx, ?gy) r.
                          rounded_euclid fl pixelX pixelY s \<le> rounded_euclid fl pixelX pixelY t \<and>
                          euclid pixelX pixelY s \<le> (1 + 1 / 2 ^ 50) * euclid pixelX pixelY t \<and>
                          (fl = exact \<longrightarrow> euclid pixelX pixelY s \<le> euclid pixelX pixelY t))"
  proof (cases "\<exists>n. int n < 85 \<and> ?G (int n) \<noteq> []")
    case False
    then have none: "\<forall>r'. 0 \<le> r' \<and> r' < 85 \<longrightarrow> ?G r' = []"
      by (metis int_nat_eq)
    with ring_search_none [of 0 85 idx ?gx ?gy fl pixelX pixelY] f
    have n: "findNearestStop fl idx pixelX pixelY = None" by simp
    have "stops_at idx k = []" if ig: "in_grid k" for k
    proof (rule ccontr)
      assume ne: "stops_at idx k \<noteq> []"
      from chebyshev_in_grid [OF gb ig] have b: "0 \<le> chebyshev (?gx, ?gy) k" "chebyshev (?gx, ?gy) k < 85"
        by simp_all
      from ne obtain s where "s \<in> set (stops_at idx k)" by (cases "stops_at idx k") auto
      with ig have "s \<in> ring_stops idx (?gx, ?gy) (chebyshev (?gx, ?gy) k)"
        unfolding ring_stops_def by blast
      with ring [OF b(1)] have "?G (chebyshev (?gx, ?gy) k) \<noteq> []" by auto
      with none b show False by simp
    qed
    with n show ?thesis by simp
  next
    case True
    define n0 where "n0 = (LEAST n. int n < 85 \<and> ?G (int n) \<noteq> [])"
    from LeastI_ex [OF True] have "int n0 < 85 \<and> ?G (int n0) \<noteq> []"
      unfolding n0_def .
    then have n0: "int n0 < 85" "?G (int n0) \<noteq> []" by blast+
    have least: "?G (int n) = []" if "n < n0" for n
    proof (rule ccontr)
      assume "?G (int n) \<noteq> []"
      with that n0(1) have "int n < 85 \<and> ?G (int n) \<noteq> []" by simp
      then have "n0 \<le> n" unfolding n0_def by (rule Least_le)
      with that show False by simp
    qed
    have before: "\<forall>r'. 0 \<le> r' \<and> r' < int n0 \<longrightarrow> ?G r' = []"
    proof (intro allI impI)
      fix r' assume r': "0 \<le> r' \<and> r' < int n0"
      then have "nat r' < n0" by linarith
      from least [OF this] r' show "?G r' = []" by simp
    qed
    from ring_search_first [of 0 "int n0" 85 idx ?gx ?gy fl pixelX pixelY] n0 before f
    have fc: "findNearestStop fl idx pixelX pixelY = findClosest fl (?G (int n0)) pixelX pixelY" by simp
    from findClosest_min [OF n0(2), of fl pixelX pixelY] obtain s where s:
      "findClosest fl (?G (int n0)) pixelX pixelY = Some s" "s \<in> set (?G (int n0))"
      "\<forall>t \<in> set (?G (int n0)). rounded_euclid fl pixelX pixelY s \<le> rounded_euclid fl pixelX pixelY t"
      unfolding stop_distance_rounded by blast
    have r0: "set (?G (int n0)) = ring_stops idx (?gx, ?gy) (int n0)" by (rule ring) simp
    have empty: "\<forall>r'. 0 \<le> r' \<and> r' < int n0 \<longrightarrow> ring_stops idx (?gx, ?gy) r' = {}"
      using before ring by (metis set_empty)
    have best: "rounded_euclid fl pixelX pixelY s \<le> rounded_euclid fl pixelX pixelY t \<and>
                euclid pixelX pixelY s \<le> (1 + 1 / 2 ^ 50) * euclid pixelX pixelY t \<and>
                (fl = exact \<longrightarrow> euclid pixelX pixelY s \<le> euclid pixelX pixelY t)"
      if "t \<in> ring_stops idx (?gx, ?gy) (int n0)" for t
    proof -
      from that s(3) r0 have le: "rounded_euclid fl pixelX pixelY s \<le> rounded_euclid fl pixelX pixelY t"
        by simp
      from le near_minimum [OF assms le] show ?thesis
        by (auto simp add: rounded_euclid_exact)
    qed
    from s(1,2) r0 empty n0(1) fc best show ?thesis
      by (simp only: option.case) (rule exI [of _ "int n0"], simp)
  qed
  have per: "\<forall>r. 0 \<le> r \<longrightarrow> set (?G r) = ring_stops idx (?gx, ?gy) r"
    using ring by blast
  from res per show "let c = ?c in
               (case findNearestStop fl idx pixelX pixelY of
                  None \<Rightarrow> \<forall>k. in_grid k \<longrightarrow> stops_at idx k = []
                | Some s \<Rightarrow>
                   \<exists>r. 0 \<le> r \<and> r < \<lceil>sqrt (real_of_int (COLS * COLS + ROWS * ROWS))\<rceil> \<and>
                       s \<in> ring_stops idx c r \<and>
                       (\<forall>r'. 0 \<le> r' \<and> r' < r \<longrightarrow> ring_stops idx c r' = {}) \<and>
                       (\<forall>t \<in> ring_stops idx c r.
                          rounded_euclid fl pixelX pixelY s \<le> rounded_euclid fl pixelX pixelY t \<and>
                          euclid pixelX pixelY s \<le> (1 + 1 / 2 ^ 50) * euclid pixelX pixelY t \<and>
                          (fl = exact \<longrightarrow> euclid pixelX pixelY s \<le> euclid pixelX pixelY t))) \<and>
               (\<forall>r. 0 \<le> r \<longrightarrow> set (getStopsInRadius idx (fst c) (snd c) r) = ring_stops idx c r)"
    unfolding Let_def c m fst_conv snd_conv by blast
qed

subsection \<open>Sample indexes\<close>

lemma stops_at_index_add:
  "stops_at (index_add m s) k = stops_at m k @ (if stop_key s = k then [s] else [])"
  by (simp add: stops_at_def index_add_def)

lemma stops_at_fold_stops:
  "stops_at (fold (\<lambda>s m'. index_add m' s) ss m) k = stops_at m k @ filter (\<lambda>s. stop_key s = k) ss"
  by (induction ss arbitrary: m) (simp_all add: stops_at_index_add)

lemma stops_at_fold_routes:
  "stops_at (fold (\<lambda>route m. fold (\<lambda>s m'. index_add m' s) (stops route) m) rs m) k
     = stops_at m k @ filter (\<lambda>s. stop_key s = k) (concat (map stops rs))"
  by (induction rs arbitrary: m) (simp_all add: stops_at_fold_stops)

lemma stops_at_rebuildIndex:
  "stops_at (rebuildIndex rs) k = filter (\<lambda>s. stop_key s = k) (concat (map stops rs))"
  by (simp add: rebuildIndex_def stops_at_fold_routes) (simp add: stops_at_def)

lemma ring_stops_rebuildIndex:
  "ring_stops (rebuildIndex rs) c r =
     {s \<in> set (concat (map stops rs)).
        chebyshev c (stop_key s) = r \<and> (r = 0 \<or> in_grid (stop_key s))}"
  unfolding ring_stops_def stops_at_rebuildIndex by (auto simp del: split_paired_Ex)

definition index_AB :: SpatialIndex where
  "index_AB = rebuildIndex [route_with []]"

lemma ring_stops_AB:
  "ring_stops index_AB c r =
     {s. (s = stopA \<or> s = stopB) \<and> chebyshev c (stop_key s) = r}"
  unfolding index_AB_def ring_stops_rebuildIndex
  by (auto simp add: route_with_def in_grid_def stop_key_def stopA_def stopB_def)

lemma upto_1: "[- 1..1] = [-1, 0, 1::int]"
  by (simp add: upto.simps)

lemma fl64_binade:
  assumes "2 powr real_of_int E \<le> \<bar>x\<bar>" and "\<bar>x\<bar> < 2 powr real_of_int (E + 1)"
  shows "fl64 x = real_of_int (rne (x / 2 powr real_of_int (E - 52))) * 2 powr real_of_int (E - 52)"
proof -
  from assms(1) have pos: "0 < \<bar>x\<bar>" by (smt (verit) powr_gt_zero)
  then have nz: "x \<noteq> 0" by simp
  from assms pos have "real_of_int E \<le> log 2 \<bar>x\<bar>" "log 2 \<bar>x\<bar> < real_of_int (E + 1)"
    by (simp_all add: le_log_iff log_less_iff)
  then have "\<lfloor>log 2 \<bar>x\<bar>\<rfloor> = E" by (intro floor_unique) simp_all
  with nz show ?thesis by (simp add: fl64_def Let_def)
qed

lemma fl64_0: "fl64 0 = 0" by (simp add: fl64_def)

lemma rne_int: "rne (real_of_int k) = k"
  by (simp add: rne_def)

lemma fl64_30: "fl64 30 = 30"
proof -
  have "fl64 30 = real_of_int (rne (30 / 2 powr real_of_int (4 - 52))) * 2 powr real_of_int (4 - 52)"
    by (rule fl64_binade) simp_all
  also have "30 / 2 powr real_of_int (4 - 52) = real_of_int (30 * 2 ^ 48)"
    by (simp add: powr_minus_divide)
  finally show ?thesis by (simp only: rne_int) (simp add: powr_minus_divide)
qed

lemma fl64_900: "fl64 900 = 900"
proof -
  have "fl64 900 = real_of_int (rne (900 / 2 powr real_of_int (9 - 52))) * 2 powr real_of_int (9 - 52)"
    by (rule fl64_binade) simp_all
  also have "900 / 2 powr real_of_int (9 - 52) = real_of_int (900 * 2 ^ 43)"
    by (simp add: powr_minus_divide)
  finally show ?thesis by (simp only: rne_int) (simp add: powr_minus_divide)
qed

lemma fl64_near_30: "fl64 (30 - 1 / 2 ^ 60) = 30"
proof -
  have "fl64 (30 - 1 / 2 ^ 60)
          = real_of_int (rne ((30 - 1 / 2 ^ 60) / 2 powr real_of_int (4 - 52))) * 2 powr real_of_int (4 - 52)"
    by (rule fl64_binade) simp_all
  also have "(30 - 1 / 2 ^ 60) / 2 powr real_of_int (4 - 52) = real_of_int (30 * 2 ^ 48) - 1 / 2 ^ 12"
    by (simp add: powr_minus_divide field_simps)
  also have "rne (real_of_int (30 * 2 ^ 48) - 1 / 2 ^ 12) = 30 * 2 ^ 48"
  proof -
    have "\<lfloor>real_of_int (30 * 2 ^ 48) - 1 / 2 ^ 12\<rfloor> = 30 * 2 ^ 48 - 1"
      by (rule floor_unique) simp_all
    then show ?thesis by (simp add: rne_def Let_def)
  qed
  finally show ?thesis by (simp add: powr_minus_divide)
qed

lemma fl64_tiny: "fl64 (- (1 / 2 ^ 60)) = - (1 / 2 ^ 60)"
proof -
  have "fl64 (- (1 / 2 ^ 60))
          = real_of_int (rne (- (1 / 2 ^ 60) / 2 powr real_of_int (- 60 - 52))) * 2 powr real_of_int (- 60 - 52)"
    by (rule fl64_binade) (simp_all add: powr_minus_divide)
  also have "- (1 / 2 ^ 60) / 2 powr real_of_int (- 60 - 52) = real_of_int (- (2 ^ 52))"
    by (simp add: powr_minus_divide)
  finally show ?thesis by (simp only: rne_int) (simp add: powr_minus_divide)
qed

lemma fl64_tiny_sq: "fl64 (1 / 2 ^ 120) = 1 / 2 ^ 120"
proof -
  have "fl64 (1 / 2 ^ 120)
          = real_of_int (rne (1 / 2 ^ 120 / 2 powr real_of_int (- 120 - 52))) * 2 powr real_of_int (- 120 - 52)"
    by (rule fl64_binade) (simp_all add: powr_minus_divide)
  also have "1 / 2 ^ 120 / 2 powr real_of_int (- 120 - 52) = real_of_int (2 ^ 52)"
    by (simp add: powr_minus_divide)
  finally show ?thesis by (simp only: rne_int) (simp add: powr_minus_divide)
qed

lemma fl64_swallow: "fl64 (1 / 2 ^ 120 + 900) = 900"
proof -
  have "fl64 (1 / 2 ^ 120 + 900)
          = real_of_int (rne ((1 / 2 ^ 120 + 900) / 2 powr real_of_int (9 - 52))) * 2 powr real_of_int (9 - 52)"
    by (rule fl64_binade) simp_all
  also have "(1 / 2 ^ 120 + 900) / 2 powr real_of_int (9 - 52) = real_of_int (900 * 2 ^ 43) + 1 / 2 ^ 77"
    by (simp add: powr_minus_divide field_simps)
  also have "rne (real_of_int (900 * 2 ^ 43) + 1 / 2 ^ 77) = 900 * 2 ^ 43"
  proof -
    have "\<lfloor>real_of_int (900 * 2 ^ 43) + 1 / 2 ^ 77\<rfloor> = 900 * 2 ^ 43"
      by (rule floor_unique) simp_all
    then show ?thesis by (simp add: rne_def Let_def)
  qed
  finally show ?thesis by (simp add: powr_minus_divide)
qed

lemma sqrt_900: "sqrt 900 = 30"
  by (rule real_sqrt_unique) simp_all

text \<open>
  Two stops in the ring of radius 1 around cell \<open>(3, 3)\<close>, at different distances from
  the query point \<open>(100, 100)\<close>; the nearer one is scanned second.
\<close>

definition stopE :: Stop where "stopE = \<lparr>stop_x = 4, stop_y = 3\<rparr>"

definition index_AE :: SpatialIndex where
  "index_AE = rebuildIndex [\<lparr>stops = [stopA, stopE], buses = [], color = ''#ff4444''\<rparr>]"

lemma ring_stops_AE:
  "ring_stops index_AE c r =
     {s. (s = stopA \<or> s = stopE) \<and> chebyshev c (stop_key s) = r}"
  unfolding index_AE_def ring_stops_rebuildIndex
  by (auto simp add: in_grid_def stop_key_def stopA_def stopE_def)

lemma findNearestStop_AE: "findNearestStop exact index_AE 100 100 = Some stopE"
proof -
  have 0: "getStopsInRadius index_AE 3 3 0 = []"
    by (simp add: getStopsInRadius_def index_AE_def stops_at_rebuildIndex stop_key_def
        stopA_def stopE_def)
  have 1: "getStopsInRadius index_AE 3 3 1 = [stopA, stopE]"
    by (simp add: getStopsInRadius_def index_AE_def stops_at_rebuildIndex stop_key_def
        stopA_def stopE_def upto_1 COLS_def ROWS_def)
  have c: "jsRound (exact (100 / real_of_int GRID_SIZE)) = 3"
    by (simp add: jsRound_def GRID_SIZE_def exact_def)
  have d: "stop_distance exact 100 100 stopA = sqrt 1700" "stop_distance exact 100 100 stopE = sqrt 500"
    by (simp_all add: stop_distance_def distance_def exact_def stopA_def stopE_def GRID_SIZE_def)
  have "findNearestStop exact index_AE 100 100 = ring_search exact index_AE 3 3 100 100 0 85"
    unfolding findNearestStop_def Let_def maxRadius_85 [OF rounds_exact] c
    by (simp add: COLS_def GRID_SIZE_def)
  also have "\<dots> = ring_search exact index_AE 3 3 100 100 1 85"
    by (subst ring_search.simps) (simp add: 0)
  also have "\<dots> = Some stopE"
    by (subst ring_search.simps) (simp add: 1 findClosest_def d)
  finally show ?thesis .
qed

theorem findNearestStop_first_ring_witness:
  "rounds exact \<and> findNearestStop exact index_AE 100 100 = Some stopE \<and>
   ring_stops index_AE (3, 3) 0 = {} \<and>
   stopA \<in> ring_stops index_AE (3, 3) 1 \<and> stopE \<in> ring_stops index_AE (3, 3) 1 \<and>
   euclid 100 100 stopE \<le> euclid 100 100 stopA \<and>
   euclid 100 100 stopE = sqrt 500 \<and> euclid 100 100 stopA = sqrt 1700"
proof -
  have c: "(\<lfloor>exact (100 / 30) + 1 / 2\<rfloor>, \<lfloor>exact (100 / 30) + 1 / 2\<rfloor>) = (3, 3)"
    by (simp add: exact_def)
  have ringA: "stopA \<in> ring_stops index_AE (3, 3) 1" and ringE: "stopE \<in> ring_stops index_AE (3, 3) 1"
    and ring0: "ring_stops index_AE (3, 3) 0 = {}"
    by (auto simp add: ring_stops_AE chebyshev_def stop_key_def stopA_def stopE_def)
  from findNearestStop_first_ring [OF rounds_exact, of 100 100 index_AE]
  obtain r where r: "stopE \<in> ring_stops index_AE (3, 3) r"
    and best: "\<forall>t \<in> ring_stops index_AE (3, 3) r. euclid 100 100 stopE \<le> euclid 100 100 t"
    unfolding findNearestStop_AE Let_def c
    by (auto simp add: COLS_def GRID_SIZE_def)
  from r have "r = 1"
    by (auto simp add: ring_stops_AE chebyshev_def stop_key_def stopA_def stopE_def)
  with best ringA have le: "euclid 100 100 stopE \<le> euclid 100 100 stopA" by blast
  have e: "euclid 100 100 stopE = sqrt 500" "euclid 100 100 stopA = sqrt 1700"
    by (simp_all add: euclid_def stopA_def stopE_def)
  from rounds_exact findNearestStop_AE ring0 ringA ringE le e show ?thesis by blast
qed

text \<open>
  Two stops in the ring of radius 1 around cell \<open>(0, 0)\<close>, and the query point
  \<open>(2^-60, 0)\<close>. The stop at cell \<open>(1, 0)\<close> is the nearer one, at distance \<open>30 - 2^-60\<close>; the
  stop at cell \<open>(0, 1)\<close> is at distance \<open>sqrt (900 + 2^-120)\<close>. In doubles both distances
  come out as 30, and the stop scanned first is kept.
\<close>

definition stopS :: Stop where "stopS = \<lparr>stop_x = 0, stop_y = 1\<rparr>"
definition stopT :: Stop where "stopT = \<lparr>stop_x = 1, stop_y = 0\<rparr>"

definition index_ST :: SpatialIndex where
  "index_ST = rebuildIndex [\<lparr>stops = [stopT, stopS], buses = [], color = ''#ff4444''\<rparr>]"

lemma ring_stops_ST:
  "ring_stops index_ST c r =
     {s. (s = stopS \<or> s = stopT) \<and> chebyshev c (stop_key s) = r}"
  unfolding index_ST_def ring_stops_rebuildIndex
  by (auto simp add: in_grid_def stop_key_def stopS_def stopT_def)

definition q60 :: real where "q60 = 1 / 2 ^ 60"

lemma stop_distance_S: "stop_distance fl64 q60 0 stopS = 30"
proof -
  have p: "real_of_int (stop_x stopS * GRID_SIZE) = 0" "real_of_int (stop_y stopS * GRID_SIZE) = 30"
    by (simp_all add: stopS_def GRID_SIZE_def)
  have a: "fl64 (0 - q60) = - q60" using fl64_tiny by (simp add: q60_def)
  have b: "fl64 (30 - 0) = 30" using fl64_30 by simp
  have c: "fl64 (- q60 * - q60) = 1 / 2 ^ 120" using fl64_tiny_sq by (simp add: q60_def)
  have d: "fl64 (30 * 30) = 900" using fl64_900 by simp
  have e: "fl64 (1 / 2 ^ 120 + 900) = 900" by (rule fl64_swallow)
  show ?thesis
    unfolding stop_distance_def distance_def Let_def p a b c d e sqrt_900 by (rule fl64_30)
qed

lemma stop_distance_T: "stop_distance fl64 q60 0 stopT = 30"
proof -
  have p: "real_of_int (stop_x stopT * GRID_SIZE) = 30" "real_of_int (stop_y stopT * GRID_SIZE) = 0"
    by (simp_all add: stopT_def GRID_SIZE_def)
  have a: "fl64 (30 - q60) = 30" using fl64_near_30 by (simp add: q60_def)
  have b: "fl64 (0 - 0) = 0" by (simp add: fl64_0)
  have c: "fl64 (30 * 30) = 900" using fl64_900 by simp
  have d: "fl64 (0 * 0) = 0" by (simp add: fl64_0)
  have e: "fl64 (900 + 0) = 900" using fl64_900 by simp
  show ?thesis
    unfolding stop_distance_def distance_def Let_def p a b c d e sqrt_900 by (rule fl64_30)
qed

lemma cell_tiny: "jsRound (fl64 (q60 / real_of_int GRID_SIZE)) = 0"
proof -
  have y: "(0::real) \<le> 1 / 2 ^ 60 / 30" by simp
  from rounds_nonneg [OF rounds_fl64 y]
  have "0 \<le> fl64 (1 / 2 ^ 60 / 30)" "fl64 (1 / 2 ^ 60 / 30) < 1 / 2"
    by (simp_all add: algebra_simps)
  then have "\<lfloor>fl64 (1 / 2 ^ 60 / 30) + 1 / 2\<rfloor> = 0" by (intro floor_unique) simp_all
  then show ?thesis by (simp add: jsRound_def GRID_SIZE_def q60_def)
qed

lemma findNearestStop_ST: "findNearestStop fl64 index_ST q60 0 = Some stopS"
proof -
  have 0: "getStopsInRadius index_ST 0 0 0 = []"
    by (simp add: getStopsInRadius_def index_ST_def stops_at_rebuildIndex stop_key_def
        stopS_def stopT_def)
  have 1: "getStopsInRadius index_ST 0 0 1 = [stopS, stopT]"
    by (simp add: getStopsInRadius_def index_ST_def stops_at_rebuildIndex stop_key_def
        stopS_def stopT_def upto_1 COLS_def ROWS_def)
  have c: "jsRound (fl64 (0 / real_of_int GRID_SIZE)) = 0"
    by (simp add: jsRound_def fl64_0)
  have q: "0 \<le> q60" "q60 < 1800" by (simp_all add: q60_def)
  have fc: "findClosest fl64 [stopS, stopT] q60 0 = Some stopS"
    unfolding findClosest_def findClosest_loop.simps Let_def stop_distance_S stop_distance_T
    by simp
  from q have "findNearestStop fl64 index_ST q60 0 = ring_search fl64 index_ST 0 0 q60 0 0 85"
    unfolding findNearestStop_def Let_def maxRadius_85 [OF rounds_fl64] c cell_tiny
    by (simp add: COLS_def GRID_SIZE_def)
  also have "\<dots> = ring_search fl64 index_ST 0 0 q60 0 1 85"
    by (subst ring_search.simps) (simp add: 0)
  also have "\<dots> = Some stopS"
    by (subst ring_search.simps) (simp add: 1 fc)
  finally show ?thesis .
qed

theorem findNearestStop_rounding_counterexample:
  "findNearestStop fl64 index_ST (1 / 2 ^ 60) 0 = Some stopS \<and>
   (\<lfloor>fl64 (1 / 2 ^ 60 / 30) + 1 / 2\<rfloor>, \<lfloor>fl64 (0 / 30) + 1 / 2\<rfloor>) = (0, 0) \<and>
   ring_stops index_ST (0, 0) 0 = {} \<and>
   stopS \<in> ring_stops index_ST (0, 0) 1 \<and> stopT \<in> ring_stops index_ST (0, 0) 1 \<and>
   euclid (1 / 2 ^ 60) 0 stopT < euclid (1 / 2 ^ 60) 0 stopS"
proof -
  have f: "findNearestStop fl64 index_ST (1 / 2 ^ 60) 0 = Some stopS"
    using findNearestStop_ST unfolding q60_def .
  have c: "(\<lfloor>fl64 (1 / 2 ^ 60 / 30) + 1 / 2\<rfloor>, \<lfloor>fl64 (0 / 30) + 1 / 2\<rfloor>) = (0, 0)"
    using cell_tiny by (simp add: jsRound_def GRID_SIZE_def fl64_0 q60_def)
  have rings: "ring_stops index_ST (0, 0) 0 = {}"
    "stopS \<in> ring_stops index_ST (0, 0) 1" "stopT \<in> ring_stops index_ST (0, 0) 1"
    by (auto simp add: ring_stops_ST chebyshev_def stop_key_def stopS_def stopT_def)
  have t: "euclid q60 0 stopT < 30"
    by (simp add: euclid_def stopT_def q60_def)
  have "30 < sqrt ((30 * real_of_int (stop_x stopS) - q60)\<^sup>2 + (30 * real_of_int (stop_y stopS) - 0)\<^sup>2)"
    by (rule real_less_rsqrt) (simp add: stopS_def q60_def power2_eq_square)
  then have s: "30 < euclid q60 0 stopS" by (simp only: euclid_def)
  from t s have "euclid q60 0 stopT < euclid q60 0 stopS" by simp
  then have "euclid (1 / 2 ^ 60) 0 stopT < euclid (1 / 2 ^ 60) 0 stopS"
    unfolding q60_def .
  with f c rings show ?thesis by blast
qed


section \<open>RoutePlanner\<close>

text \<open>
  \<^verbatim>\<open>planTrip\<close> and \<^verbatim>\<open>buildStopGraph\<close>. The graph is a \<^verbatim>\<open>Map\<close> from a stop's key to
  its array of connections, an association list here. \<^verbatim>\<open>forEach((x, i) => ...)\<close> is a
  recursion over the array paired with its indices. The three nested loops of
  \<^verbatim>\<open>buildStopGraph\<close> are \<open>connect_routes\<close>, \<open>connect_stops\<close> and \<open>connect_others\<close>;
  the loop over a stop's connections in \<^verbatim>\<open>planTrip\<close> is \<open>explore\<close> and the loop over
  the queue is \<open>plan_loop\<close>, which terminates because every push marks a new stop of the
  graph as visited. A queue entry is \<open>(stop, path, routePath)\<close>.
\<close>

record TransferPlan =
  tp_stops :: "Stop list"
  tp_routes :: "nat list"
  totalTransfers :: int

type_synonym StopGraph = "((int \<times> int) \<times> (Stop \<times> nat) list) list"

definition connections :: "StopGraph \<Rightarrow> int \<times> int \<Rightarrow> (Stop \<times> nat) list" where
  "connections graph k = (case map_of graph k of None \<Rightarrow> [] | Some cs \<Rightarrow> cs)"

definition same_stop :: "Stop \<Rightarrow> Stop \<Rightarrow> bool" where
  "same_stop a b = (stop_x a = stop_x b \<and> stop_y a = stop_y b)"

fun connect_others ::
  "nat \<Rightarrow> nat \<Rightarrow> (nat \<times> Stop) list \<Rightarrow> (Stop \<times> nat) list \<Rightarrow> (Stop \<times> nat) list" where
  "connect_others i routeIndex [] cs = cs"
| "connect_others i routeIndex ((j, otherStop) # others) cs =
     (if i \<noteq> j \<and> \<not> list_ex (\<lambda>c. same_stop (fst c) otherStop \<and> snd c = routeIndex) cs
      then connect_others i routeIndex others (cs @ [(otherStop, routeIndex)])
      else connect_others i routeIndex others cs)"

fun connect_stops ::
  "nat \<Rightarrow> Stop list \<Rightarrow> (nat \<times> Stop) list \<Rightarrow> StopGraph \<Rightarrow> StopGraph" where
  "connect_stops routeIndex all [] graph = graph"
| "connect_stops routeIndex all ((i, s) # rest) graph =
     connect_stops routeIndex all rest
       (js_map_set (stop_key s)
          (connect_others i routeIndex (enumerate 0 all) (connections graph (stop_key s))) graph)"

fun connect_routes :: "(nat \<times> Route) list \<Rightarrow> StopGraph \<Rightarrow> StopGraph" where
  "connect_routes [] graph = graph"
| "connect_routes ((routeIndex, route) # rest) graph =
     connect_routes rest (connect_stops routeIndex (stops route) (enumerate 0 (stops route)) graph)"

definition buildStopGraph :: "Route list \<Rightarrow> StopGraph" where
  "buildStopGraph allRoutes = connect_routes (enumerate 0 allRoutes) []"

type_synonym plan_item = "Stop \<times> Stop list \<times> nat list"

fun explore ::
  "Stop list \<Rightarrow> nat list \<Rightarrow> (Stop \<times> nat) list \<Rightarrow> plan_item list \<Rightarrow> (int \<times> int) set
     \<Rightarrow> plan_item list \<times> (int \<times> int) set" where
  "explore path routePath [] queue visited = (queue, visited)"
| "explore path routePath ((nextStop, routeIndex) # cs) queue visited =
     (if stop_key nextStop \<notin> visited
      then explore path routePath cs
             (queue @ [(nextStop, path @ [nextStop], routePath @ [routeIndex])])
             (insert (stop_key nextStop) visited)
      else explore path routePath cs queue visited)"

definition graph_keys :: "StopGraph \<Rightarrow> (int \<times> int) set" where
  "graph_keys graph = stop_key ` fst ` set (concat (map snd graph))"

definition plan_measure :: "StopGraph \<Rightarrow> plan_item list \<Rightarrow> (int \<times> int) set \<Rightarrow> nat" where
  "plan_measure graph q V = 2 * card (graph_keys graph - V) + length q"

lemma finite_graph_keys: "finite (graph_keys graph)"
  by (simp add: graph_keys_def)

lemma connections_keys: "(s, ri) \<in> set (connections graph k) \<Longrightarrow> stop_key s \<in> graph_keys graph"
proof -
  assume a: "(s, ri) \<in> set (connections graph k)"
  then obtain cs where cs: "map_of graph k = Some cs" "(s, ri) \<in> set cs"
    by (cases "map_of graph k") (auto simp: connections_def)
  then have "(k, cs) \<in> set graph" by (simp add: map_of_SomeD)
  with cs(2) have "(s, ri) \<in> set (concat (map snd graph))" by force
  then have "s \<in> fst ` set (concat (map snd graph))" by force
  then show ?thesis unfolding graph_keys_def by (rule imageI)
qed

lemma explore_measure:
  "explore path rp cs q V = (q', V') \<Longrightarrow> (\<forall>c \<in> set cs. stop_key (fst c) \<in> graph_keys graph) \<Longrightarrow>
   plan_measure graph q' V' \<le> plan_measure graph q V"
proof (induction cs arbitrary: q V)
  case Nil
  then show ?case by simp
next
  case (Cons c cs)
  obtain s ri where c: "c = (s, ri)" by (cases c)
  show ?case
  proof (cases "stop_key s \<in> V")
    case True
    with Cons.prems c have "explore path rp cs q V = (q', V')" by simp
    from Cons.IH [OF this] Cons.prems(2) show ?thesis by simp
  next
    case False
    with Cons.prems c have
      "explore path rp cs (q @ [(s, path @ [s], rp @ [ri])]) (insert (stop_key s) V) = (q', V')"
      by simp
    from Cons.IH [OF this] Cons.prems(2)
    have "plan_measure graph q' V'
            \<le> plan_measure graph (q @ [(s, path @ [s], rp @ [ri])]) (insert (stop_key s) V)"
      by simp
    moreover from Cons.prems(2) c False have inb: "stop_key s \<in> graph_keys graph - V" by simp
    have "graph_keys graph - insert (stop_key s) V = (graph_keys graph - V) - {stop_key s}" by auto
    then have "card (graph_keys graph - insert (stop_key s) V) = card (graph_keys graph - V) - 1"
      using inb finite_graph_keys by (simp del: Diff_iff)
    moreover have "card (graph_keys graph - V) > 0"
      using inb finite_graph_keys card_gt_0_iff by blast
    ultimately show ?thesis by (simp add: plan_measure_def)
  qed
qed

function plan_loop ::
  "StopGraph \<Rightarrow> Stop \<Rightarrow> plan_item list \<Rightarrow> (int \<times> int) set \<Rightarrow> TransferPlan option" where
  "plan_loop graph dest [] visited = None"
| "plan_loop graph dest ((stop, path, routePath) # queue) visited =
     (if stop_x stop = stop_x dest \<and> stop_y stop = stop_y dest
      then Some \<lparr>tp_stops = path, tp_routes = routePath,
                 totalTransfers = int (length routePath) - 1\<rparr>
      else (case explore path routePath (connections graph (stop_key stop)) queue visited of
              (q', V') \<Rightarrow> plan_loop graph dest q' V'))"
  by pat_completeness auto
termination
proof (relation "measure (\<lambda>(graph, d, q, V). plan_measure graph q V)")
  show "wf (measure (\<lambda>(graph, d, q, V). plan_measure graph q V))" by simp
next
  fix graph :: StopGraph and dest stop :: Stop and path routePath queue visited q' V'
  assume "(q', V') = explore path routePath (connections graph (stop_key stop)) queue visited"
  then have e: "explore path routePath (connections graph (stop_key stop)) queue visited = (q', V')"
    by simp
  have "\<forall>c \<in> set (connections graph (stop_key stop)). stop_key (fst c) \<in> graph_keys graph"
    by (auto intro: connections_keys)
  from explore_measure [OF e this]
  show "((graph, dest, q', V'), (graph, dest, (stop, path, routePath) # queue, visited))
          \<in> measure (\<lambda>(graph, d, q, V). plan_measure graph q V)"
    by (simp add: plan_measure_def)
qed

declare plan_loop.simps [simp del]

definition planTrip :: "Stop \<Rightarrow> Stop \<Rightarrow> Route list \<Rightarrow> TransferPlan option" where
  "planTrip origin dest allRoutes =
     (if stop_x origin = stop_x dest \<and> stop_y origin = stop_y dest
      then Some \<lparr>tp_stops = [origin], tp_routes = [], totalTransfers = 0\<rparr>
      else plan_loop (buildStopGraph allRoutes) dest
             [(origin, [origin], [])] {stop_key origin})"



subsection \<open>The stop graph\<close>

lemma same_stop_eq: "same_stop a b \<longleftrightarrow> a = (b :: Stop)"
  by (cases a, cases b) (auto simp: same_stop_def)

lemma stop_key_inj: "stop_key a = stop_key b \<longleftrightarrow> a = (b :: Stop)"
  by (cases a, cases b) (auto simp: stop_key_def)

lemma set_connect_others:
  "set (connect_others i ri others cs) = set cs \<union> {(b, ri) | j b. (j, b) \<in> set others \<and> j \<noteq> i}"
proof (induction others arbitrary: cs)
  case Nil
  then show ?case by simp
next
  case (Cons a others)
  obtain j otherStop where a: "a = (j, otherStop)" by (cases a)
  have ex: "list_ex (\<lambda>c. same_stop (fst c) otherStop \<and> snd c = ri) cs \<longleftrightarrow> (otherStop, ri) \<in> set cs"
    by (force simp: list_ex_iff same_stop_eq)
  show ?case
  proof (cases "i \<noteq> j \<and> (otherStop, ri) \<notin> set cs")
    case True
    with ex have "connect_others i ri (a # others) cs
                    = connect_others i ri others (cs @ [(otherStop, ri)])"
      by (simp add: a)
    with Cons.IH [of "cs @ [(otherStop, ri)]"] True show ?thesis
      by (auto simp: a)
  next
    case False
    with ex have "connect_others i ri (a # others) cs = connect_others i ri others cs"
      by (auto simp: a)
    with Cons.IH [of cs] False show ?thesis
      by (auto simp: a)
  qed
qed

lemma map_of_replace:
  "map_of (map (\<lambda>e. if fst e = k then (k, v) else e) m) k'
     = (if k' = k then map_option (\<lambda>_. v) (map_of m k) else map_of m k')"
  by (induction m) auto

lemma map_of_js_map_set:
  "map_of (js_map_set k v m) k' = (if k' = k then Some v else map_of m k')"
proof (cases "k \<in> fst ` set m")
  case True
  then obtain w where "map_of m k = Some w"
    by (metis map_of_eq_None_iff not_None_eq)
  with True show ?thesis by (simp add: js_map_set_def map_of_replace)
next
  case False
  then have "map_of m k = None" by (simp add: map_of_eq_None_iff)
  with False show ?thesis
    by (auto simp add: js_map_set_def map_add_def split: option.splits)
qed

lemma connections_js_map_set:
  "connections (js_map_set k v g) k' = (if k' = k then v else connections g k')"
  by (simp add: connections_def map_of_js_map_set)

lemma set_connect_stops:
  "set (connections (connect_stops ri all items g) k) =
     set (connections g k) \<union>
     {(b, ri) | i s j b. (i, s) \<in> set items \<and> stop_key s = k \<and> (j, b) \<in> set (enumerate 0 all) \<and> j \<noteq> i}"
proof (induction items arbitrary: g)
  case Nil
  then show ?case by simp
next
  case (Cons a items)
  obtain i s where a: "a = (i, s)" by (cases a)
  let ?g = "js_map_set (stop_key s)
              (connect_others i ri (enumerate 0 all) (connections g (stop_key s))) g"
  have "set (connections ?g k) = set (connections g k) \<union>
          {(b, ri) | j b. stop_key s = k \<and> (j, b) \<in> set (enumerate 0 all) \<and> j \<noteq> i}"
    by (auto simp add: connections_js_map_set set_connect_others)
  with Cons.IH [of ?g] show ?case
    by (simp add: a) blast
qed

lemma set_connect_routes:
  "set (connections (connect_routes rts g) k) =
     set (connections g k) \<union>
     {(b, ri) | ri r i s j b. (ri, r) \<in> set rts \<and> (i, s) \<in> set (enumerate 0 (stops r)) \<and>
        stop_key s = k \<and> (j, b) \<in> set (enumerate 0 (stops r)) \<and> j \<noteq> i}"
proof (induction rts arbitrary: g)
  case Nil
  then show ?case by simp
next
  case (Cons a rts)
  obtain ri r where a: "a = (ri, r)" by (cases a)
  show ?case
    unfolding a connect_routes.simps Cons.IH set_connect_stops
    by (simp add: set_eq_iff) blast
qed

lemma set_connections_buildStopGraph:
  "set (connections (buildStopGraph rs) (stop_key a)) =
     {(b, ri). ri < length rs \<and>
        (\<exists>i j. i < length (stops (rs ! ri)) \<and> j < length (stops (rs ! ri)) \<and> i \<noteq> j \<and>
               stops (rs ! ri) ! i = a \<and> stops (rs ! ri) ! j = b)}"
  unfolding buildStopGraph_def set_connect_routes
  by (auto simp add: in_set_enumerate_eq connections_def stop_key_inj)


subsection \<open>The search as a breadth-first search over stops\<close>

definition plan_next :: "StopGraph \<Rightarrow> Stop \<Rightarrow> Stop set" where
  "plan_next graph s = fst ` set (connections graph (stop_key s))"

definition seen :: "(int \<times> int) set \<Rightarrow> Stop set" where
  "seen V = {s. stop_key s \<in> V}"

definition abs_item :: "plan_item \<Rightarrow> Stop \<times> Stop list" where
  "abs_item it = (fst it, tl (fst (snd it)))"

definition leg_ok :: "Route list \<Rightarrow> Stop \<Rightarrow> nat \<Rightarrow> Stop \<Rightarrow> bool" where
  "leg_ok rs a ri b =
     (ri < length rs \<and> a \<in> set (stops (rs ! ri)) \<and> b \<in> set (stops (rs ! ri)) \<and> a \<noteq> b)"

definition legs_ok :: "Route list \<Rightarrow> Stop list \<Rightarrow> nat list \<Rightarrow> bool" where
  "legs_ok rs path rp =
     (length path = Suc (length rp) \<and>
      (\<forall>i < length rp. leg_ok rs (path ! i) (rp ! i) (path ! Suc i)))"

definition item_ok :: "Route list \<Rightarrow> Stop \<Rightarrow> plan_item \<Rightarrow> bool" where
  "item_ok rs origin it =
     (case it of (s, path, rp) \<Rightarrow> hd path = origin \<and> last path = s \<and> legs_ok rs path rp)"

lemma abs_item_triple: "abs_item (s, path, rp) = (s, tl path)"
  by (simp add: abs_item_def)

lemma item_ok_triple:
  "item_ok rs origin (s, path, rp) = (hd path = origin \<and> last path = s \<and> legs_ok rs path rp)"
  by (simp add: item_ok_def)

lemma seen_union_image: "seen (V \<union> stop_key ` A) = seen V \<union> A"
proof -
  have "stop_key x \<in> stop_key ` A \<longleftrightarrow> x \<in> A" for x
    by (auto simp: stop_key_inj)
  then show ?thesis by (auto simp: seen_def)
qed

lemma legs_ok_snoc:
  assumes "legs_ok rs path rp" and "leg_ok rs (last path) ri t"
  shows "legs_ok rs (path @ [t]) (rp @ [ri])"
proof -
  from assms(1) have len: "length path = Suc (length rp)" by (simp add: legs_ok_def)
  then have ne: "path \<noteq> []" by auto
  have "leg_ok rs ((path @ [t]) ! i) ((rp @ [ri]) ! i) ((path @ [t]) ! Suc i)"
    if "i < length (rp @ [ri])" for i
  proof (cases "i < length rp")
    case True
    with assms(1) len show ?thesis by (simp add: legs_ok_def nth_append)
  next
    case False
    with that have i: "i = length rp" by simp
    with len ne have "(path @ [t]) ! i = last path"
      by (simp add: nth_append last_conv_nth)
    with i len assms(2) show ?thesis by (simp add: nth_append)
  qed
  with len show ?thesis by (simp add: legs_ok_def)
qed

lemma explore_spec:
  "\<exists>new. explore path rp cs q V =
           (q @ map (\<lambda>c. (fst c, path @ [fst c], rp @ [snd c])) new, V \<union> stop_key ` fst ` set new) \<and>
         set new \<subseteq> set cs \<and> fst ` set new = fst ` set cs - seen V"
proof (induction cs arbitrary: q V)
  case Nil
  show ?case by (rule exI [of _ "[]"]) simp
next
  case (Cons c cs)
  obtain t ri where c: "c = (t, ri)" by (cases c)
  show ?case
  proof (cases "stop_key t \<in> V")
    case True
    from Cons.IH [of q V] obtain new where new:
      "explore path rp cs q V =
         (q @ map (\<lambda>c. (fst c, path @ [fst c], rp @ [snd c])) new, V \<union> stop_key ` fst ` set new)"
      "set new \<subseteq> set cs" "fst ` set new = fst ` set cs - seen V" by blast
    from True have "fst ` set (c # cs) - seen V = fst ` set cs - seen V"
      by (auto simp: c seen_def)
    with new True show ?thesis by (intro exI [of _ new]) (auto simp: c)
  next
    case False
    let ?q = "q @ [(t, path @ [t], rp @ [ri])]"
    let ?V = "insert (stop_key t) V"
    from Cons.IH [of ?q ?V] obtain new where new:
      "explore path rp cs ?q ?V =
         (?q @ map (\<lambda>c. (fst c, path @ [fst c], rp @ [snd c])) new, ?V \<union> stop_key ` fst ` set new)"
      "set new \<subseteq> set cs" "fst ` set new = fst ` set cs - seen ?V" by blast
    have sV: "seen ?V = insert t (seen V)"
      by (auto simp: seen_def stop_key_inj)
    have 1: "explore path rp (c # cs) q V =
         (q @ map (\<lambda>c. (fst c, path @ [fst c], rp @ [snd c])) (c # new),
          V \<union> stop_key ` fst ` set (c # new))"
      using False new(1) by (simp add: c)
    have 2: "set (c # new) \<subseteq> set (c # cs)" using new(2) by auto
    have "t \<notin> seen V" using False by (simp add: seen_def)
    then have 3: "fst ` set (c # new) = fst ` set (c # cs) - seen V"
      using new(3) sV by (auto simp: c)
    from 1 2 3 show ?thesis by blast
  qed
qed

lemma plan_loop_correct:
  "bfs_inv (plan_next (buildStopGraph rs)) origin dest (map abs_item q) (seen V) \<Longrightarrow>
   list_all (item_ok rs origin) q \<Longrightarrow> graph = buildStopGraph rs \<Longrightarrow>
   (if \<exists>p. walk (plan_next graph) origin p dest
    then \<exists>plan. plan_loop graph dest q V = Some plan \<and>
           hd (tp_stops plan) = origin \<and> last (tp_stops plan) = dest \<and>
           legs_ok rs (tp_stops plan) (tp_routes plan) \<and>
           totalTransfers plan = int (length (tp_routes plan)) - 1 \<and>
           shortest_walk (plan_next graph) origin (tl (tp_stops plan)) dest
    else plan_loop graph dest q V = None)"
proof (induction graph dest q V rule: plan_loop.induct)
  case (1 graph dest V)
  from bfs_inv_empty [of "plan_next (buildStopGraph rs)" origin dest "seen V"] "1.prems"
  show ?case by (simp add: plan_loop.simps)
next
  case (2 graph dest s path rp queue V)
  let ?nxt = "plan_next (buildStopGraph rs)"
  note g = "2.prems"(3)
  from "2.prems"(1) have inv: "bfs_inv ?nxt origin dest ((s, tl path) # map abs_item queue) (seen V)"
    by (simp add: abs_item_triple)
  from "2.prems"(2) have ok: "hd path = origin" "last path = s" "legs_ok rs path rp"
    and okq: "list_all (item_ok rs origin) queue"
    by (simp_all add: item_ok_triple)
  from ok(3) have ne: "path \<noteq> []" by (auto simp: legs_ok_def)
  from bfs_inv_head [OF inv] have sw: "shortest_walk ?nxt origin (tl path) s" .
  show ?case
  proof (cases "stop_x s = stop_x dest \<and> stop_y s = stop_y dest")
    case True
    then have sd: "s = dest" using same_stop_eq [of s dest] by (simp add: same_stop_def)
    from sw sd have "\<exists>p. walk (plan_next graph) origin p dest"
      by (auto simp: shortest_walk_def g)
    with True ok sw sd show ?thesis by (simp add: plan_loop.simps g)
  next
    case False
    then have sd: "s \<noteq> dest" by auto
    let ?cs = "connections graph (stop_key s)"
    from explore_spec [of path rp ?cs queue V] obtain new where new:
      "explore path rp ?cs queue V =
         (queue @ map (\<lambda>c. (fst c, path @ [fst c], rp @ [snd c])) new, V \<union> stop_key ` fst ` set new)"
      "set new \<subseteq> set ?cs" "fst ` set new = fst ` set ?cs - seen V" by blast
    let ?q' = "queue @ map (\<lambda>c. (fst c, path @ [fst c], rp @ [snd c])) new"
    let ?V' = "V \<union> stop_key ` fst ` set new"
    let ?ms = "map fst new"
    have ms: "set ?ms = ?nxt s - seen V" using new(3) by (simp add: plan_next_def g)
    have absq: "map abs_item ?q' = map abs_item queue @ map (\<lambda>m. (m, tl path @ [m])) ?ms"
      using ne by (simp add: abs_item_def comp_def)
    have absV: "seen ?V' = seen V \<union> set ?ms"
      by (simp add: seen_union_image)
    from bfs_inv_step [OF inv sd ms]
    have inv': "bfs_inv ?nxt origin dest (map abs_item ?q') (seen ?V')"
      by (simp only: absq absV)
    from inv have sV: "s \<in> seen V" by (simp add: bfs_inv_def)
    have "item_ok rs origin (fst c, path @ [fst c], rp @ [snd c])" if c: "c \<in> set new" for c
    proof -
      from c new(2) have "(fst c, snd c) \<in> set (connections (buildStopGraph rs) (stop_key s))"
        by (auto simp: g)
      then have "snd c < length rs \<and> s \<in> set (stops (rs ! snd c)) \<and> fst c \<in> set (stops (rs ! snd c))"
        unfolding set_connections_buildStopGraph by (auto simp: in_set_conv_nth)
      moreover from c new(3) have "fst c \<notin> seen V" by auto
      with sV have "s \<noteq> fst c" by auto
      ultimately have "leg_ok rs (last path) (snd c) (fst c)" by (simp add: leg_ok_def ok(2))
      from legs_ok_snoc [OF ok(3) this] ok(1) ne show ?thesis
        by (simp add: item_ok_triple)
    qed
    with okq have ok': "list_all (item_ok rs origin) ?q'"
      by (auto simp: list_all_iff)
    have step: "plan_loop graph dest ((s, path, rp) # queue) V = plan_loop graph dest ?q' ?V'"
      by (subst plan_loop.simps) (simp only: False new(1) if_False prod.case)
    from "2.IH" [OF False new(1) [symmetric] inv' ok' g]
    show ?thesis unfolding step .
  qed
qed


subsection \<open>The clique model\<close>

text \<open>
  The adjacency the claim is stated in, and what it asks of a plan: it starts at the
  origin, ends at the destination, has one more stop than legs, and leg \<open>i\<close> rides a
  route that serves stop \<open>i\<close> and stop \<open>i + 1\<close>, which differ.
\<close>

definition clique_next :: "Route list \<Rightarrow> Stop \<Rightarrow> Stop set" where
  "clique_next rs a = {b. b \<noteq> a \<and> (\<exists>r \<in> set rs. a \<in> set (stops r) \<and> b \<in> set (stops r))}"

definition clique_walk :: "Route list \<Rightarrow> Stop \<Rightarrow> Stop list \<Rightarrow> Stop \<Rightarrow> bool" where
  "clique_walk rs = walk (clique_next rs)"

definition valid_plan :: "Route list \<Rightarrow> Stop \<Rightarrow> Stop \<Rightarrow> TransferPlan \<Rightarrow> bool" where
  "valid_plan rs origin dest plan =
     (hd (tp_stops plan) = origin \<and> last (tp_stops plan) = dest \<and>
      legs_ok rs (tp_stops plan) (tp_routes plan))"

lemma plan_next_buildStopGraph:
  "plan_next (buildStopGraph rs) a =
     {b. \<exists>ri i j. ri < length rs \<and> i < length (stops (rs ! ri)) \<and> j < length (stops (rs ! ri)) \<and>
           i \<noteq> j \<and> stops (rs ! ri) ! i = a \<and> stops (rs ! ri) ! j = b}"
  unfolding plan_next_def set_connections_buildStopGraph by force

lemma clique_next_sub: "clique_next rs a \<subseteq> plan_next (buildStopGraph rs) a"
proof
  fix b assume "b \<in> clique_next rs a"
  then obtain r where r: "b \<noteq> a" "r \<in> set rs" "a \<in> set (stops r)" "b \<in> set (stops r)"
    by (auto simp: clique_next_def)
  then obtain ri i j where "ri < length rs" "rs ! ri = r" "i < length (stops r)" "stops r ! i = a"
    "j < length (stops r)" "stops r ! j = b"
    by (metis in_set_conv_nth)
  with r(1) show "b \<in> plan_next (buildStopGraph rs) a"
    unfolding plan_next_buildStopGraph by blast
qed

lemma walk_mono: "(\<And>a. f a \<subseteq> g a) \<Longrightarrow> walk f a p b \<Longrightarrow> walk g a p b"
  by (induction p arbitrary: a) auto

lemma clique_walk_plan: "clique_walk rs a p b \<Longrightarrow> walk (plan_next (buildStopGraph rs)) a p b"
  unfolding clique_walk_def by (rule walk_mono [OF clique_next_sub])

lemma plan_next_sub: "plan_next (buildStopGraph rs) a \<subseteq> insert a (clique_next rs a)"
proof
  fix b assume "b \<in> plan_next (buildStopGraph rs) a"
  then obtain ri i j where "ri < length rs" "i < length (stops (rs ! ri))"
    "j < length (stops (rs ! ri))" "stops (rs ! ri) ! i = a" "stops (rs ! ri) ! j = b"
    unfolding plan_next_buildStopGraph by blast
  then have "rs ! ri \<in> set rs" "a \<in> set (stops (rs ! ri))" "b \<in> set (stops (rs ! ri))"
    by (auto simp: in_set_conv_nth)
  then show "b \<in> insert a (clique_next rs a)"
    unfolding clique_next_def by blast
qed

lemma plan_walk_clique:
  "walk (plan_next (buildStopGraph rs)) a p b \<Longrightarrow> \<exists>p'. clique_walk rs a p' b"
proof (induction p arbitrary: a)
  case Nil
  then have "clique_walk rs a [] b" by (simp add: clique_walk_def)
  then show ?case by blast
next
  case (Cons n ns)
  then have n: "n \<in> plan_next (buildStopGraph rs) a"
    and "walk (plan_next (buildStopGraph rs)) n ns b" by simp_all
  from Cons.IH [OF this(2)] obtain p' where p': "clique_walk rs n p' b" by blast
  show ?case
  proof (cases "n = a")
    case True
    with p' show ?thesis by blast
  next
    case False
    with n plan_next_sub [of rs a] have "n \<in> clique_next rs a" by blast
    with p' have "clique_walk rs a (n # p') b" by (simp add: clique_walk_def)
    then show ?thesis by blast
  qed
qed

text \<open>
  C3. In the clique model two distinct stops are adjacent when some route has both, and a
  plan is a chain of such hops. For equal origin and destination \<open>planTrip\<close> returns
  the zero-leg plan \<open>[origin]\<close> (with \<open>totalTransfers = 0\<close>). For distinct stops joined
  by any chain \<open>p\<close> of hops it returns a plan from origin to destination each of whose
  legs rides a route serving both of its stops, with \<open>totalTransfers\<close> one less than the
  number of legs and with no more legs than \<open>p\<close> has hops: no plan has fewer legs. For
  distinct stops sharing a route the plan is the single leg \<open>[origin, dest]\<close> with zero
  transfers. When no chain joins the stops it returns no plan.
\<close>

theorem planTrip_minimum_legs:
  "planTrip s s rs = Some \<lparr>tp_stops = [s], tp_routes = [], totalTransfers = 0\<rparr> \<and>
   (origin \<noteq> dest \<and> clique_walk rs origin p dest \<longrightarrow>
      (\<exists>plan. planTrip origin dest rs = Some plan \<and> valid_plan rs origin dest plan \<and>
         totalTransfers plan = int (length (tp_routes plan)) - 1 \<and>
         length (tp_routes plan) \<le> length p)) \<and>
   (origin \<noteq> dest \<and> r \<in> set rs \<and> origin \<in> set (stops r) \<and> dest \<in> set (stops r) \<longrightarrow>
      (\<exists>ri. planTrip origin dest rs =
               Some \<lparr>tp_stops = [origin, dest], tp_routes = [ri], totalTransfers = 0\<rparr> \<and>
            leg_ok rs origin ri dest)) \<and>
   (origin \<noteq> dest \<and> (\<forall>p'. \<not> clique_walk rs origin p' dest) \<longrightarrow>
      planTrip origin dest rs = None)"
proof -
  let ?g = "buildStopGraph rs"
  have trivial: "planTrip s s rs = Some \<lparr>tp_stops = [s], tp_routes = [], totalTransfers = 0\<rparr>"
    by (simp add: planTrip_def)
  have loop: "planTrip origin dest rs = plan_loop ?g dest [(origin, [origin], [])] {stop_key origin}"
    if "origin \<noteq> dest"
  proof -
    from that same_stop_eq [of origin dest]
    have "\<not> (stop_x origin = stop_x dest \<and> stop_y origin = stop_y dest)"
      unfolding same_stop_def by blast
    then show ?thesis unfolding planTrip_def by (simp only: if_False)
  qed
  have inv0: "bfs_inv (plan_next ?g) origin dest (map abs_item [(origin, [origin], [])])
                (seen {stop_key origin})"
  proof -
    have "seen {stop_key origin} = {origin}" by (auto simp: seen_def stop_key_inj)
    then show ?thesis by (simp add: abs_item_triple bfs_inv_init)
  qed
  have ok0: "list_all (item_ok rs origin) [(origin, [origin], [])]"
    by (simp add: item_ok_triple legs_ok_def)
  note main = plan_loop_correct [OF inv0 ok0 refl]
  have found: "\<exists>plan. planTrip origin dest rs = Some plan \<and> valid_plan rs origin dest plan \<and>
         totalTransfers plan = int (length (tp_routes plan)) - 1 \<and>
         length (tp_routes plan) \<le> length q"
    if ne: "origin \<noteq> dest" and w: "clique_walk rs origin q dest" for q
  proof -
    from clique_walk_plan [OF w] have w': "walk (plan_next ?g) origin q dest" .
    then have "\<exists>p. walk (plan_next ?g) origin p dest" by blast
    with main obtain plan where plan: "plan_loop ?g dest [(origin, [origin], [])] {stop_key origin} = Some plan"
      "hd (tp_stops plan) = origin" "last (tp_stops plan) = dest"
      "legs_ok rs (tp_stops plan) (tp_routes plan)"
      "totalTransfers plan = int (length (tp_routes plan)) - 1"
      "shortest_walk (plan_next ?g) origin (tl (tp_stops plan)) dest"
      by (auto split: if_splits)
    from plan(6) w' have "length (tl (tp_stops plan)) \<le> length q"
      by (simp add: shortest_walk_def)
    moreover from plan(4) have "length (tl (tp_stops plan)) = length (tp_routes plan)"
      by (simp add: legs_ok_def)
    ultimately show ?thesis using plan loop [OF ne] by (simp add: valid_plan_def)
  qed
  have direct: "\<exists>ri. planTrip origin dest rs =
               Some \<lparr>tp_stops = [origin, dest], tp_routes = [ri], totalTransfers = 0\<rparr> \<and>
            leg_ok rs origin ri dest"
    if ne: "origin \<noteq> dest" and r: "r \<in> set rs" "origin \<in> set (stops r)" "dest \<in> set (stops r)"
  proof -
    from ne r have "dest \<in> clique_next rs origin" by (auto simp: clique_next_def)
    then have "clique_walk rs origin [dest] dest" by (simp add: clique_walk_def)
    from found [OF ne this] obtain plan where plan: "planTrip origin dest rs = Some plan"
      "valid_plan rs origin dest plan" "totalTransfers plan = int (length (tp_routes plan)) - 1"
      "length (tp_routes plan) \<le> 1" by auto
    obtain ss rt tt where p: "plan = \<lparr>tp_stops = ss, tp_routes = rt, totalTransfers = tt\<rparr>"
      by (cases plan) auto
    from plan(2) p have v: "hd ss = origin" "last ss = dest" "length ss = Suc (length rt)"
      "\<forall>i < length rt. leg_ok rs (ss ! i) (rt ! i) (ss ! Suc i)"
      by (simp_all add: valid_plan_def legs_ok_def)
    from plan(4) p have "length rt \<le> 1" by simp
    moreover have "length rt \<noteq> 0"
    proof
      assume "length rt = 0"
      with v(3) obtain x where "ss = [x]" by (cases ss) auto
      with v(1,2) ne show False by simp
    qed
    ultimately have l: "length rt = 1" by linarith
    then obtain ri where rt: "rt = [ri]" by (cases rt) auto
    from v(3) l obtain x y where ss: "ss = [x, y]"
      by (cases ss; cases "tl ss") auto
    with v(1,2) have ss': "ss = [origin, dest]" by simp
    from v(4) rt ss' have "leg_ok rs origin ri dest" by simp
    with plan(1,3) p rt ss' show ?thesis by simp
  qed
  have none: "planTrip origin dest rs = None"
    if ne: "origin \<noteq> dest" and nw: "\<forall>p'. \<not> clique_walk rs origin p' dest"
  proof -
    from nw plan_walk_clique [of rs origin _ dest]
    have "\<not> (\<exists>p'. walk (plan_next ?g) origin p' dest)" by blast
    with main loop [OF ne] show ?thesis by simp
  qed
  from trivial found direct none show ?thesis by blast
qed


subsection \<open>Sample network\<close>

text \<open>Two routes that meet at \<open>stopB\<close> only.\<close>

definition stopC :: Stop where "stopC = \<lparr>stop_x = 7, stop_y = 9\<rparr>"
definition stopD :: Stop where "stopD = \<lparr>stop_x = 1, stop_y = 9\<rparr>"

definition route_AB :: Route where
  "route_AB = \<lparr>stops = [stopA, stopB], buses = [], color = ''#ff4444''\<rparr>"

definition route_BCD :: Route where
  "route_BCD = \<lparr>stops = [stopB, stopC, stopD], buses = [], color = ''#44ff44''\<rparr>"

theorem planTrip_minimum_legs_witness:
  "stopA \<noteq> stopD \<and> clique_walk [route_AB, route_BCD] stopA [stopB, stopD] stopD \<and>
   (\<exists>plan. planTrip stopA stopD [route_AB, route_BCD] = Some plan \<and>
      valid_plan [route_AB, route_BCD] stopA stopD plan \<and>
      totalTransfers plan = int (length (tp_routes plan)) - 1 \<and>
      length (tp_routes plan) \<le> 2)"
proof -
  have ne: "stopA \<noteq> stopD" by (simp add: stopA_def stopD_def)
  have w: "clique_walk [route_AB, route_BCD] stopA [stopB, stopD] stopD"
    by (simp add: clique_walk_def clique_next_def route_AB_def route_BCD_def
        stopA_def stopB_def stopC_def stopD_def)
  from planTrip_minimum_legs [of stopA "[route_AB, route_BCD]" stopA stopD "[stopB, stopD]" route_AB]
    ne w
  have "\<exists>plan. planTrip stopA stopD [route_AB, route_BCD] = Some plan \<and>
      valid_plan [route_AB, route_BCD] stopA stopD plan \<and>
      totalTransfers plan = int (length (tp_routes plan)) - 1 \<and>
      length (tp_routes plan) \<le> 2"
    by auto
  with ne w show ?thesis by blast
qed


section \<open>RouteManager: a bus at a stop\<close>

text \<open>
  \<^verbatim>\<open>handleBusAtStop\<close> of \<^verbatim>\<open>RouteManager.ts\<close>, which \<^verbatim>\<open>updateBuses\<close> calls when a
  bus has stood at a stop for \<^verbatim>\<open>STOP_DURATION\<close>. It first drops passengers off (a
  \<^verbatim>\<open>for\<close> loop over \<^verbatim>\<open>bus.passengers\<close> from the last index down, splicing as it goes)
  and then picks up waiting NPCs (\<^verbatim>\<open>state.npcs.forEach\<close>).

  Both loops write to NPC objects and to \<^verbatim>\<open>bus.passengers\<close>. In the model a loop
  threads the pair of the bus's passenger array and the game state; the array is written
  back into the bus when the method ends. A \<^verbatim>\<open>return\<close> inside the \<^verbatim>\<open>forEach\<close>
  callback ends the callback for that NPC only. Reading a field of \<^verbatim>\<open>undefined\<close>
  (a stop index past the end of \<^verbatim>\<open>route.stops\<close> or of the plan's \<^verbatim>\<open>stops\<close>) raises
  a \<^verbatim>\<open>TypeError\<close>, which nothing catches: the frame callback of the game loop ends
  before it schedules the next frame. \<^verbatim>\<open>transferCount || 0\<close> is the counter itself,
  which \<^verbatim>\<open>createNPC\<close> initialises. \<^verbatim>\<open>state.routes.indexOf(route)\<close> is the index of
  the route the bus belongs to. Console output is not modelled. The arithmetic of
  \<^verbatim>\<open>RouteManager\<close> and \<^verbatim>\<open>EntityManager\<close> is modelled without rounding, so their calls
  into the spatial index pass \<open>exact\<close>.
\<close>

definition getDestinationCenter :: "Zone \<Rightarrow> real \<times> real" where
  "getDestinationCenter zone =
     (let margin = 5;
          canvasMax = real_of_int (GRID_SIZE * 60) - 1 - margin;
          canvasMin = margin;
          centerX = (zone_x zone + zone_w zone / 2) * real_of_int GRID_SIZE;
          centerY = (zone_y zone + zone_h zone / 2) * real_of_int GRID_SIZE
      in (max canvasMin (min centerX canvasMax), max canvasMin (min centerY canvasMax)))"

definition nearestToZone :: "SpatialIndex \<Rightarrow> Zone \<Rightarrow> Stop option" where
  "nearestToZone idx zone =
     (case getDestinationCenter zone of (cx, cy) \<Rightarrow> findNearestStop exact idx cx cy)"

definition zoneDistance :: "Stop \<Rightarrow> Zone \<Rightarrow> real" where
  "zoneDistance s zone =
     (case getDestinationCenter zone of (cx, cy) \<Rightarrow>
        distance exact (real_of_int (stop_x s * GRID_SIZE)) (real_of_int (stop_y s * GRID_SIZE)) cx cy)"

definition stopsDistance :: "Stop \<Rightarrow> Stop \<Rightarrow> real" where
  "stopsDistance a b =
     distance exact (real_of_int (stop_x a * GRID_SIZE)) (real_of_int (stop_y a * GRID_SIZE))
                    (real_of_int (stop_x b * GRID_SIZE)) (real_of_int (stop_y b * GRID_SIZE))"

definition maxAcceptableDistance :: real where
  "maxAcceptableDistance = real_of_int (8 * GRID_SIZE)"

definition started :: "real option \<Rightarrow> bool" where
  "started t = (case t of None \<Rightarrow> False | Some v \<Rightarrow> v \<noteq> 0)"

definition nth_opt :: "'a list \<Rightarrow> nat \<Rightarrow> 'a option" where
  "nth_opt xs i = (if i < length xs then Some (xs ! i) else None)"

definition upd :: "npc_ref \<Rightarrow> (NPC \<Rightarrow> NPC) \<Rightarrow> GameState \<Rightarrow> GameState" where
  "upd r f s = s\<lparr>npc_heap := (npc_heap s)(r := f (npc_heap s r))\<rparr>"

definition transferAt :: "Stop \<Rightarrow> NPC \<Rightarrow> NPC" where
  "transferAt cur n = n\<lparr>npc_state := waiting,
     npc_x := real_of_int (stop_x cur * GRID_SIZE), npc_y := real_of_int (stop_y cur * GRID_SIZE),
     nearestStop := Some cur, atStop := True, transferCount := transferCount n + 1\<rparr>"

definition advancePlan :: "NPC \<Rightarrow> NPC" where
  "advancePlan n =
     (case plannedRoute n of
        None \<Rightarrow> n
      | Some pl \<Rightarrow> n\<lparr>plannedRoute := Some (pl\<lparr>plan_currentStopIndex := plan_currentStopIndex pl + 1\<rparr>)\<rparr>)"

definition recordTrip :: "NPC \<Rightarrow> GameState \<Rightarrow> GameState" where
  "recordTrip n s =
     s\<lparr>stats := (stats s)\<lparr>tripsCompleted := tripsCompleted (stats s) + 1,
                          totalWaitTime := totalWaitTime (stats s) + waitTime n\<rparr>,
       economics := (economics s)\<lparr>money := money (economics s) + ticketPrice (economics s),
                                  totalIncome := totalIncome (economics s) + ticketPrice (economics s)\<rparr>\<rparr>"

definition recordTransportTime :: "NPC \<Rightarrow> GameState \<Rightarrow> GameState" where
  "recordTransportTime n s =
     (if started (transportStartTime n)
      then s\<lparr>stats := (stats s)\<lparr>totalTransportTime :=
               totalTransportTime (stats s) + (time s - the (transportStartTime n)) / 1000\<rparr>\<rparr>
      else s)"

text \<open>One iteration of the drop-off loop, for the passenger at index \<open>i\<close>.\<close>

definition alight_one ::
  "SpatialIndex \<Rightarrow> Stop option \<Rightarrow> nat \<Rightarrow> npc_ref list \<times> GameState
     \<Rightarrow> js_error + npc_ref list \<times> GameState" where
  "alight_one idx currentStop i st =
     (case st of (ps, s) \<Rightarrow>
      let p = ps ! i;
          passenger = npc_heap s p;
          found = (case destinationStop passenger of
                     Some d \<Rightarrow> None
                   | None \<Rightarrow> nearestToZone idx (destinationZone passenger));
          s1 = (case found of None \<Rightarrow> s
                | Some f \<Rightarrow> upd p (\<lambda>n. n\<lparr>destinationStop := Some f\<rparr>) s);
          destStop = destinationStop (npc_heap s1 p)
      in case destStop of
           None \<Rightarrow> Inr (ps, s1)
         | Some d \<Rightarrow>
            (case currentStop of
               None \<Rightarrow> Inl TypeError
             | Some cur \<Rightarrow>
                 if \<not> same_stop d cur then Inr (ps, s1)
                 else
                   let ps' = take i ps @ drop (Suc i) ps;
                       recalculated = (case finalDestinationStop (npc_heap s1 p) of
                                         Some f \<Rightarrow> None
                                       | None \<Rightarrow> nearestToZone idx (destinationZone (npc_heap s1 p)));
                       s2 = (case recalculated of None \<Rightarrow> s1
                             | Some f \<Rightarrow> upd p (\<lambda>n. n\<lparr>finalDestinationStop := Some f\<rparr>) s1)
                   in case finalDestinationStop (npc_heap s2 p) of
                        None \<Rightarrow> Inr (ps', s2)
                      | Some finalDestStop \<Rightarrow>
                          if same_stop finalDestStop cur
                          then if zoneDistance cur (destinationZone (npc_heap s2 p)) > maxAcceptableDistance
                               then Inr (ps', upd p (\<lambda>n. (transferAt cur n)\<lparr>plannedRoute := None\<rparr>) s2)
                               else let s3 = upd p (\<lambda>n. n\<lparr>npc_state := arrived\<rparr>) s2
                                    in Inr (ps', recordTransportTime (npc_heap s3 p)
                                                   (recordTrip (npc_heap s3 p) s3))
                          else Inr (ps', upd p (\<lambda>n. advancePlan (transferAt cur n)) s2)))"

fun alight_loop ::
  "SpatialIndex \<Rightarrow> Stop option \<Rightarrow> nat \<Rightarrow> npc_ref list \<times> GameState
     \<Rightarrow> js_error + npc_ref list \<times> GameState" where
  "alight_loop idx currentStop 0 st = Inr st"
| "alight_loop idx currentStop (Suc i) st =
     (case alight_one idx currentStop i st of
        Inl e \<Rightarrow> Inl e
      | Inr st' \<Rightarrow> alight_loop idx currentStop i st')"

definition boardNPC :: "Stop \<Rightarrow> Stop \<Rightarrow> real \<Rightarrow> NPC \<Rightarrow> NPC" where
  "boardNPC dest final now n =
     n\<lparr>destinationStop := Some dest, finalDestinationStop := Some final,
       npc_state := traveling, atStop := False,
       transportStartTime := (if started (transportStartTime n) then transportStartTime n
                              else Some now)\<rparr>"

fun closest_loop :: "Stop list \<Rightarrow> Stop \<Rightarrow> Stop \<Rightarrow> Stop option \<Rightarrow> real \<Rightarrow> Stop option" where
  "closest_loop [] cur final closestStop closestDist = closestStop"
| "closest_loop (s # ss) cur final closestStop closestDist =
     (if same_stop s cur then closest_loop ss cur final closestStop closestDist
      else let distToFinal = stopsDistance s final in
           if distToFinal < closestDist then closest_loop ss cur final (Some s) distToFinal
           else closest_loop ss cur final closestStop closestDist)"

definition board_planned ::
  "nat \<Rightarrow> Stop \<Rightarrow> npc_ref \<Rightarrow> PlannedRoute \<Rightarrow> npc_ref list \<times> GameState
     \<Rightarrow> js_error + npc_ref list \<times> GameState" where
  "board_planned routeIndexInState cur r plan st =
     (case st of (ps, s) \<Rightarrow>
      case nth_opt (plan_stops plan) (plan_currentStopIndex plan) of
        None \<Rightarrow> Inl TypeError
      | Some currentPlanStop \<Rightarrow>
          if stop_x currentPlanStop \<noteq> stop_x cur \<or> stop_y currentPlanStop \<noteq> stop_y cur
          then Inr (ps, s)
          else if nth_opt (plan_routes plan) (plan_currentStopIndex plan) = Some routeIndexInState
          then let nextStopIndex = plan_currentStopIndex plan + 1 in
               if nextStopIndex < length (plan_stops plan)
               then Inr (ps @ [r],
                         upd r (boardNPC (plan_stops plan ! nextStopIndex)
                                  (plan_stops plan ! (length (plan_stops plan) - 1)) (time s)) s)
               else Inr (ps, s)
          else Inr (ps, s))"

definition board_fallback ::
  "SpatialIndex \<Rightarrow> Route \<Rightarrow> Stop \<Rightarrow> npc_ref \<Rightarrow> npc_ref list \<times> GameState
     \<Rightarrow> npc_ref list \<times> GameState" where
  "board_fallback idx route cur r st =
     (case st of (ps, s) \<Rightarrow>
      let npc = npc_heap s r in
      case nearestToZone idx (destinationZone npc) of
        None \<Rightarrow> (ps, s)
      | Some finalDestStop \<Rightarrow>
          if zoneDistance finalDestStop (destinationZone npc) > maxAcceptableDistance then (ps, s)
          else let currentDist = stopsDistance cur finalDestStop;
                   routeHasDestination = list_ex (\<lambda>stop. same_stop stop finalDestStop) (stops route)
               in if routeHasDestination \<and> \<not> same_stop finalDestStop cur
                  then (ps @ [r], upd r (boardNPC finalDestStop finalDestStop (time s)) s)
                  else (case closest_loop (stops route) cur finalDestStop None currentDist of
                          None \<Rightarrow> (ps, s)
                        | Some transferStop \<Rightarrow>
                            (ps @ [r], upd r (boardNPC transferStop finalDestStop (time s)) s)))"

text \<open>The callback of \<^verbatim>\<open>state.npcs.forEach\<close>, for the NPC behind reference \<open>r\<close>.\<close>

definition board_one ::
  "SpatialIndex \<Rightarrow> nat \<Rightarrow> Route \<Rightarrow> Stop option \<Rightarrow> npc_ref \<Rightarrow> npc_ref list \<times> GameState
     \<Rightarrow> js_error + npc_ref list \<times> GameState" where
  "board_one idx routeIndexInState route currentStop r st =
     (case st of (ps, s) \<Rightarrow>
      let npc = npc_heap s r in
      if npc_state npc = waiting \<and> atStop npc \<and> nearestStop npc \<noteq> None
      then (case currentStop of
              None \<Rightarrow> Inl TypeError
            | Some cur \<Rightarrow>
                if same_stop (the (nearestStop npc)) cur \<and> length ps < BUS_CAPACITY
                then if transferCount npc \<ge> MAX_TRANSFERS
                     then Inr (ps, if waitTime npc > 10 \<and> \<not> maxTransfersWarned npc
                                   then upd r (\<lambda>n. n\<lparr>maxTransfersWarned := True\<rparr>) s else s)
                     else (case plannedRoute npc of
                             Some plan \<Rightarrow>
                               if finalDestinationStop npc \<noteq> None
                               then board_planned routeIndexInState cur r plan (ps, s)
                               else Inr (board_fallback idx route cur r (ps, s))
                           | None \<Rightarrow> Inr (board_fallback idx route cur r (ps, s)))
                else Inr (ps, s))
      else Inr (ps, s))"

fun board_loop ::
  "SpatialIndex \<Rightarrow> nat \<Rightarrow> Route \<Rightarrow> Stop option \<Rightarrow> npc_ref list \<Rightarrow> npc_ref list \<times> GameState
     \<Rightarrow> js_error + npc_ref list \<times> GameState" where
  "board_loop idx routeIndexInState route currentStop [] st = Inr st"
| "board_loop idx routeIndexInState route currentStop (r # rs) st =
     (case board_one idx routeIndexInState route currentStop r st of
        Inl e \<Rightarrow> Inl e
      | Inr st' \<Rightarrow> board_loop idx routeIndexInState route currentStop rs st')"

definition set_passengers :: "nat \<Rightarrow> nat \<Rightarrow> npc_ref list \<Rightarrow> GameState \<Rightarrow> GameState" where
  "set_passengers ri bi ps s =
     s\<lparr>routes := (routes s)[ri := (routes s ! ri)\<lparr>buses :=
          (buses (routes s ! ri))[bi := (buses (routes s ! ri) ! bi)\<lparr>passengers := ps\<rparr>]\<rparr>]\<rparr>"

definition sampleUtilization :: "Bus \<Rightarrow> GameState \<Rightarrow> GameState" where
  "sampleUtilization bus s =
     s\<lparr>stats := (stats s)\<lparr>
          totalBusUtilization := totalBusUtilization (stats s)
                                   + real (length (passengers bus)) / real BUS_CAPACITY,
          busUtilizationSamples := busUtilizationSamples (stats s) + 1\<rparr>\<rparr>"

definition handleBusAtStop ::
  "SpatialIndex \<Rightarrow> nat \<Rightarrow> nat \<Rightarrow> GameState \<Rightarrow> js_error + GameState" where
  "handleBusAtStop idx ri bi s =
     (let route = routes s ! ri;
          bus = buses route ! bi;
          currentStop = nth_opt (stops route) (currentStopIndex bus);
          s0 = sampleUtilization bus s
      in case alight_loop idx currentStop (length (passengers bus)) (passengers bus, s0) of
           Inl e \<Rightarrow> Inl e
         | Inr st1 \<Rightarrow>
             (case board_loop idx ri route currentStop (npcs s) st1 of
                Inl e \<Rightarrow> Inl e
              | Inr (ps2, s2) \<Rightarrow> Inr (set_passengers ri bi ps2 s2)))"


subsection \<open>A stale plan at boarding\<close>

text \<open>
  The network is the single route of \<open>route_with\<close> (stops \<open>stopA\<close>, \<open>stopB\<close>) with one
  empty bus standing at \<open>stopA\<close>. NPC 7 waits at \<open>stopA\<close> for a destination zone whose
  centre lies in the cell of \<open>stopB\<close>. \<open>stale_waiter\<close> carries a plan whose current stop
  is \<open>stopD\<close>, a stop the network no longer has; \<open>waiter\<close> is the same NPC without a plan.
\<close>

definition zoneB :: Zone where
  "zoneB = \<lparr>zone_x = 6, zone_y = 2, zone_w = 2, zone_h = 2\<rparr>"

definition stale_plan :: PlannedRoute where
  "stale_plan = \<lparr>plan_stops = [stopD, stopB], plan_routes = [0], plan_currentStopIndex = 0\<rparr>"

definition waiter :: NPC where
  "waiter = npc0\<lparr>npc_state := waiting, atStop := True, nearestStop := Some stopA,
     destinationZone := zoneB, npc_x := 60, npc_y := 90, walkingPath := None,
     walkingPathIndex := None\<rparr>"

definition stale_waiter :: NPC where
  "stale_waiter = waiter\<lparr>finalDestinationStop := Some stopB, plannedRoute := Some stale_plan\<rparr>"

definition state_waiting :: "NPC \<Rightarrow> GameState" where
  "state_waiting n = (state_with [bus_with []])\<lparr>npc_heap := (\<lambda>_. npc0)(7 := n)\<rparr>"

lemma nearestToZone_B: "nearestToZone index_AB zoneB = Some stopB"
proof -
  have c: "getDestinationCenter zoneB = (210, 90)"
    by (simp add: getDestinationCenter_def zoneB_def GRID_SIZE_def Let_def)
  have r: "jsRound (exact (210 / real_of_int GRID_SIZE)) = 7"
    "jsRound (exact (90 / real_of_int GRID_SIZE)) = 3"
    by (simp_all add: jsRound_def GRID_SIZE_def exact_def)
  have 0: "getStopsInRadius index_AB 7 3 0 = [stopB]"
    by (simp add: getStopsInRadius_def index_AB_def stops_at_rebuildIndex stop_key_def
        stopA_def stopB_def route_with_def)
  have "findNearestStop exact index_AB 210 90 = ring_search exact index_AB 7 3 210 90 0 85"
    unfolding findNearestStop_def Let_def maxRadius_85 [OF rounds_exact] r
    by (simp add: COLS_def GRID_SIZE_def)
  also have "\<dots> = Some stopB"
    by (subst ring_search.simps) (simp add: 0 findClosest_def)
  finally show ?thesis by (simp add: nearestToZone_def c)
qed

lemma zoneDistance_B: "zoneDistance stopB zoneB = 0"
  by (simp add: zoneDistance_def getDestinationCenter_def zoneB_def GRID_SIZE_def Let_def
      stopB_def distance_def exact_def)

text \<open>
  C1. When the plan's current stop is not the stop the bus stands at, the callback returns:
  the NPC stays off the bus and keeps its plan, field for field. The same NPC without a
  plan is boarded by the greedy fallback, directly towards \<open>stopB\<close>, which the route serves.
  The claim's fallback for a mismatched plan is not what the code does; the comment at the
  \<^verbatim>\<open>return\<close> reads \<^verbatim>\<open>replan or use fallback\<close>.
\<close>

theorem stale_plan_not_boarded:
  "(\<exists>s'. handleBusAtStop index_AB 0 0 (state_waiting stale_waiter) = Inr s' \<and>
         passengers (buses (routes s' ! 0) ! 0) = [] \<and>
         npc_heap s' 7 = stale_waiter) \<and>
   (\<exists>s'. handleBusAtStop index_AB 0 0 (state_waiting waiter) = Inr s' \<and>
         passengers (buses (routes s' ! 0) ! 0) = [7] \<and>
         npc_state (npc_heap s' 7) = traveling \<and>
         destinationStop (npc_heap s' 7) = Some stopB)"
proof -
  have cur: "nth_opt [stopA, stopB] 0 = Some stopA" by (simp add: nth_opt_def)
  have ne: "\<not> same_stop stopB stopA" "same_stop stopA stopA" "same_stop stopB stopB"
    by (simp_all add: same_stop_def stopA_def stopB_def)
  have mis: "stop_x stopD \<noteq> stop_x stopA" by (simp add: stopA_def stopD_def)
  have 1: "\<exists>s'. handleBusAtStop index_AB 0 0 (state_waiting stale_waiter) = Inr s' \<and>
         passengers (buses (routes s' ! 0) ! 0) = [] \<and>
         npc_heap s' 7 = stale_waiter"
    by (simp add: handleBusAtStop_def state_waiting_def state_with_def state0_def route_with_def
        bus_with_def newRouteBus_def cur sampleUtilization_def board_one_def stale_waiter_def
        waiter_def npc0_def ne BUS_CAPACITY_def MAX_TRANSFERS_def board_planned_def stale_plan_def
        nth_opt_def mis set_passengers_def Let_def)
  have 2: "\<exists>s'. handleBusAtStop index_AB 0 0 (state_waiting waiter) = Inr s' \<and>
         passengers (buses (routes s' ! 0) ! 0) = [7] \<and>
         npc_state (npc_heap s' 7) = traveling \<and>
         destinationStop (npc_heap s' 7) = Some stopB"
    by (simp add: handleBusAtStop_def state_waiting_def state_with_def state0_def route_with_def
        bus_with_def newRouteBus_def cur sampleUtilization_def board_one_def
        waiter_def npc0_def ne BUS_CAPACITY_def MAX_TRANSFERS_def board_fallback_def
        nearestToZone_B zoneDistance_B maxAcceptableDistance_def GRID_SIZE_def upd_def boardNPC_def
        set_passengers_def Let_def)
  from 1 2 show ?thesis by blast
qed


section \<open>EntityManager: NPCs\<close>

text \<open>
  \<^verbatim>\<open>createNPC\<close> and \<^verbatim>\<open>updateNPCs\<close> of \<^verbatim>\<open>EntityManager.ts\<close>.

  \<^verbatim>\<open>createNPC\<close> draws the two zones at random and derives the spawn position from the
  origin zone and the city grid; the model takes the spawn position and the destination
  zone as parameters, and the reference of the new object. What it pushes is the object
  literal of the source.

  \<^verbatim>\<open>updateNPCs\<close> is a \<^verbatim>\<open>for\<close> loop over \<^verbatim>\<open>state.npcs\<close> from the last index down;
  \<open>updateNPC\<close> is its body for index \<open>i\<close>, and the Boolean it returns tells whether the
  body executed \<^verbatim>\<open>return\<close>. The loop is not a callback: the \<^verbatim>\<open>return\<close> in the branch
  of a waiting NPC whose destination zone no stop covers leaves \<^verbatim>\<open>updateNPCs\<close>, and the
  NPCs at lower indices are not visited in that call. The path cache is threaded through
  the calls of \<^verbatim>\<open>findPath\<close>. The walking and the waiting branch share their last part
  word for word (store the final stop, then arrive at once or plan the trip); it is
  \<open>planFromStop\<close>. \<^verbatim>\<open>getDestinationCenter\<close> is the same function as in
  \<^verbatim>\<open>RouteManager.ts\<close> (\<^verbatim>\<open>COLS\<close> is 60).
\<close>

definition WALKING_SPEED :: real where "WALKING_SPEED = 1 / 2"

definition createNPC :: "npc_ref \<Rightarrow> real \<Rightarrow> real \<Rightarrow> Zone \<Rightarrow> GameState \<Rightarrow> GameState" where
  "createNPC r spawnX spawnY destination s =
     s\<lparr>npcs := npcs s @ [r],
       npc_heap := (npc_heap s)(r :=
         \<lparr>npc_x = spawnX, npc_y = spawnY, npc_state = walking, waitTime = 0,
          transportStartTime = None, nearestStop = None, atStop = False,
          destinationZone = destination, destinationStop = None, finalDestinationStop = None,
          transferCount = 0, maxTransfersWarned = False, walkingPath = Some [],
          walkingPathIndex = Some 0, plannedRoute = None\<rparr>)\<rparr>"

text \<open>
  The arrival bookkeeping of \<^verbatim>\<open>updateNPCs\<close> is that of \<open>recordTrip\<close>: one more completed
  trip, the NPC's wait time, and the ticket price on \<^verbatim>\<open>money\<close> and \<^verbatim>\<open>totalIncome\<close>.
\<close>

definition planFromStop :: "npc_ref \<Rightarrow> Stop \<Rightarrow> Stop \<Rightarrow> GameState \<Rightarrow> GameState" where
  "planFromStop r near finalDestStop s =
     (let s1 = upd r (\<lambda>n. n\<lparr>finalDestinationStop := Some finalDestStop\<rparr>) s in
      if same_stop near finalDestStop
      then let s2 = upd r (\<lambda>n. n\<lparr>npc_state := arrived\<rparr>) s1
           in recordTrip (npc_heap s2 r) s2
      else (case planTrip near finalDestStop (routes s1) of
              None \<Rightarrow> s1
            | Some plan \<Rightarrow>
                upd r (\<lambda>n. n\<lparr>plannedRoute := Some \<lparr>plan_stops = tp_stops plan,
                         plan_routes = tp_routes plan, plan_currentStopIndex = 0\<rparr>\<rparr>) s1))"

text \<open>The walking branch: first assign the nearest stop and a path to it, then walk.\<close>

definition findStopAndPath ::
  "PathfindingManager \<Rightarrow> SpatialIndex \<Rightarrow> npc_ref \<Rightarrow> GameState
     \<Rightarrow> js_error + PathfindingManager \<times> GameState" where
  "findStopAndPath pm idx r s =
     (let npc = npc_heap s r in
      if nearestStop npc = None \<and> length (routes s) > 0
      then (case findNearestStop exact idx (npc_x npc) (npc_y npc) of
              None \<Rightarrow> Inr (pm, s)
            | Some st \<Rightarrow>
                let stopX = real_of_int (stop_x st * GRID_SIZE);
                    stopY = real_of_int (stop_y st * GRID_SIZE)
                in case findPath pm (npc_x npc) (npc_y npc) stopX stopY of
                     Inl e \<Rightarrow> Inl e
                   | Inr (found, pm') \<Rightarrow>
                       Inr (pm', upd r (\<lambda>n.
                              let n1 = n\<lparr>nearestStop := Some st, walkingPath := Some found,
                                         walkingPathIndex := Some 0\<rparr>
                              in if length found = 0
                                 then n1\<lparr>npc_x := stopX, npc_y := stopY, npc_state := waiting,
                                         atStop := True\<rparr>
                                 else n1) s))
      else Inr (pm, s))"

definition walkAlongPath :: "SpatialIndex \<Rightarrow> npc_ref \<Rightarrow> GameState \<Rightarrow> GameState" where
  "walkAlongPath idx r s =
     (let npc = npc_heap s r in
      case walkingPath npc of
        None \<Rightarrow> s
      | Some wpath \<Rightarrow>
         (case walkingPathIndex npc of
            None \<Rightarrow> s
          | Some k \<Rightarrow>
              if length wpath > 0 \<and> k < length wpath
              then let waypoint = wpath ! k;
                       dx = wp_x waypoint - npc_x npc;
                       dy = wp_y waypoint - npc_y npc;
                       dist = sqrt (dx * dx + dy * dy)
                   in if dist < WALKING_SPEED
                      then let s1 = upd r (\<lambda>n. n\<lparr>npc_x := wp_x waypoint, npc_y := wp_y waypoint,
                                                  walkingPathIndex := Some (k + 1)\<rparr>) s
                           in if k + 1 \<ge> length wpath
                              then let s2 = upd r (\<lambda>n. n\<lparr>npc_state := waiting, atStop := True,
                                                walkingPath := None, walkingPathIndex := None\<rparr>) s1;
                                       zone = destinationZone (npc_heap s2 r)
                                   in (case nearestStop (npc_heap s2 r) of
                                         None \<Rightarrow> s2
                                       | Some near \<Rightarrow>
                                          (case nearestToZone idx zone of
                                             None \<Rightarrow> s2
                                           | Some finalDestStop \<Rightarrow>
                                               if zoneDistance finalDestStop zone \<le> maxAcceptableDistance
                                               then planFromStop r near finalDestStop s2
                                               else s2))
                              else s1
                      else upd r (\<lambda>n. n\<lparr>npc_x := npc_x n + dx / dist * WALKING_SPEED,
                                         npc_y := npc_y n + dy / dist * WALKING_SPEED\<rparr>) s
              else s))"

text \<open>\<^verbatim>\<open>state.npcs.splice(i, 1)\<close>.\<close>

definition removeAt :: "nat \<Rightarrow> GameState \<Rightarrow> GameState" where
  "removeAt i s = s\<lparr>npcs := take i (npcs s) @ drop (Suc i) (npcs s)\<rparr>"

text \<open>
  The waiting branch. The first component of the result is \<open>True\<close> when the branch
  executed \<^verbatim>\<open>return\<close>; the check for giving up is then not reached.
\<close>

definition waitAtStop :: "SpatialIndex \<Rightarrow> real \<Rightarrow> nat \<Rightarrow> GameState \<Rightarrow> bool \<times> GameState" where
  "waitAtStop idx deltaTime i s =
     (let r = npcs s ! i;
          s1 = upd r (\<lambda>n. n\<lparr>waitTime := waitTime n + deltaTime / 1000\<rparr>) s;
          npc = npc_heap s1 r;
          zone = destinationZone npc;
          located =
            (if nearestStop npc = None \<and> length (routes s1) > 0
             then (case findNearestStop exact idx (npc_x npc) (npc_y npc) of
                     None \<Rightarrow> (False, s1)
                   | Some near \<Rightarrow>
                       let s2 = upd r (\<lambda>n. n\<lparr>nearestStop := Some near, atStop := True\<rparr>) s1
                       in (case nearestToZone idx zone of
                             None \<Rightarrow> (False, s2)
                           | Some finalDestStop \<Rightarrow>
                               if zoneDistance finalDestStop zone > maxAcceptableDistance
                               then (True, s2)
                               else (False, planFromStop r near finalDestStop s2)))
             else (False, s1))
      in case located of
           (True, s3) \<Rightarrow> (True, s3)
         | (False, s3) \<Rightarrow>
             if waitTime (npc_heap s3 r) > NPC_MAX_WAIT_TIME
             then (False, (removeAt i s3)\<lparr>stats := (stats s3)\<lparr>npcsGaveUp := npcsGaveUp (stats s3) + 1\<rparr>\<rparr>)
             else (False, s3))"

definition updateNPC ::
  "SpatialIndex \<Rightarrow> real \<Rightarrow> nat \<Rightarrow> PathfindingManager \<times> GameState
     \<Rightarrow> js_error + bool \<times> PathfindingManager \<times> GameState" where
  "updateNPC idx deltaTime i st =
     (case st of (pm, s) \<Rightarrow>
      let r = npcs s ! i in
      case npc_state (npc_heap s r) of
        walking \<Rightarrow>
          (case findStopAndPath pm idx r s of
             Inl e \<Rightarrow> Inl e
           | Inr (pm', s') \<Rightarrow> Inr (False, pm', walkAlongPath idx r s'))
      | waiting \<Rightarrow> (case waitAtStop idx deltaTime i s of (returned, s') \<Rightarrow> Inr (returned, pm, s'))
      | arrived \<Rightarrow> Inr (False, pm, removeAt i s)
      | traveling \<Rightarrow> Inr (False, pm, s))"

fun updateNPCs_loop ::
  "SpatialIndex \<Rightarrow> real \<Rightarrow> nat \<Rightarrow> PathfindingManager \<times> GameState
     \<Rightarrow> js_error + PathfindingManager \<times> GameState" where
  "updateNPCs_loop idx deltaTime 0 st = Inr st"
| "updateNPCs_loop idx deltaTime (Suc i) st =
     (case updateNPC idx deltaTime i st of
        Inl e \<Rightarrow> Inl e
      | Inr (returned, st') \<Rightarrow>
          if returned then Inr st' else updateNPCs_loop idx deltaTime i st')"

definition updateNPCs ::
  "PathfindingManager \<Rightarrow> SpatialIndex \<Rightarrow> real \<Rightarrow> GameState
     \<Rightarrow> js_error + PathfindingManager \<times> GameState" where
  "updateNPCs pm idx deltaTime s = updateNPCs_loop idx deltaTime (length (npcs s)) (pm, s)"


subsection \<open>An arrived NPC and a stranded one\<close>

lemma findNearestStop_zone0: "findNearestStop exact index_AB 360 360 = Some stopB"
proof -
  have c: "jsRound (exact (360 / real_of_int GRID_SIZE)) = 12"
    by (simp add: jsRound_def GRID_SIZE_def exact_def)
  have ring: "set (getStopsInRadius index_AB 12 12 r) = ring_stops index_AB (12, 12) r"
    if "0 \<le> r" for r
    using ring_getStopsInRadius [OF that] .
  have 9: "set (getStopsInRadius index_AB 12 12 9) = {stopB}"
    unfolding ring [of 9, simplified] ring_stops_AB
    by (auto simp add: chebyshev_def stop_key_def stopA_def stopB_def)
  have below: "\<forall>r'. 0 \<le> r' \<and> r' < 9 \<longrightarrow> getStopsInRadius index_AB 12 12 r' = []"
  proof (intro allI impI)
    fix r' :: int
    assume r: "0 \<le> r' \<and> r' < 9"
    then have "set (getStopsInRadius index_AB 12 12 r') = {}"
      unfolding ring [of r', OF conjunct1 [OF r]] ring_stops_AB
      by (auto simp add: chebyshev_def stop_key_def stopA_def stopB_def)
    then show "getStopsInRadius index_AB 12 12 r' = []" by simp
  qed
  from 9 have ne: "getStopsInRadius index_AB 12 12 9 \<noteq> []" by auto
  have "findNearestStop exact index_AB 360 360 = ring_search exact index_AB 12 12 360 360 0 85"
    unfolding findNearestStop_def Let_def maxRadius_85 [OF rounds_exact] c
    by (simp add: COLS_def GRID_SIZE_def)
  also have "\<dots> = findClosest exact (getStopsInRadius index_AB 12 12 9) 360 360"
    by (rule ring_search_first [OF _ _ ne below]) simp_all
  also from findClosest_min [OF ne, of exact 360 360] 9 have "\<dots> = Some stopB" by auto
  finally show ?thesis .
qed

lemma nearestToZone_zone0: "nearestToZone index_AB zone0 = Some stopB"
proof -
  have "getDestinationCenter zone0 = (360, 360)"
    by (simp add: getDestinationCenter_def zone0_def GRID_SIZE_def Let_def)
  then show ?thesis by (simp add: nearestToZone_def findNearestStop_zone0)
qed

lemma zoneDistance_zone0: "zoneDistance stopB zone0 > maxAcceptableDistance"
proof -
  have "getDestinationCenter zone0 = (360, 360)"
    by (simp add: getDestinationCenter_def zone0_def GRID_SIZE_def Let_def)
  then have "zoneDistance stopB zone0 = sqrt 95400"
    by (simp add: zoneDistance_def stopB_def GRID_SIZE_def distance_def exact_def)
  moreover have "240 < sqrt 95400" by (rule real_less_rsqrt) simp
  ultimately show ?thesis by (simp add: maxAcceptableDistance_def GRID_SIZE_def)
qed

lemma findNearestStop_atA: "findNearestStop exact index_AB 60 90 = Some stopA"
proof -
  have r: "jsRound (exact (60 / real_of_int GRID_SIZE)) = 2"
    "jsRound (exact (90 / real_of_int GRID_SIZE)) = 3"
    by (simp_all add: jsRound_def GRID_SIZE_def exact_def)
  have 0: "getStopsInRadius index_AB 2 3 0 = [stopA]"
    by (simp add: getStopsInRadius_def index_AB_def stops_at_rebuildIndex stop_key_def
        stopA_def stopB_def route_with_def)
  have "findNearestStop exact index_AB 60 90 = ring_search exact index_AB 2 3 60 90 0 85"
    unfolding findNearestStop_def Let_def maxRadius_85 [OF rounds_exact] r
    by (simp add: COLS_def GRID_SIZE_def)
  also have "\<dots> = Some stopA"
    by (subst ring_search.simps) (simp add: 0 findClosest_def)
  finally show ?thesis .
qed

text \<open>
  The network of \<open>route_with\<close> again. NPC 3 has arrived at \<open>stopB\<close>. NPC 7 waits in the
  cell of \<open>stopA\<close> for \<open>zone0\<close>, whose centre is more than eight cells from the nearest
  stop, and its \<^verbatim>\<open>nearestStop\<close> has been reset to \<^verbatim>\<open>null\<close>, as the stop editing
  handlers do for every waiting NPC.
\<close>

definition arrived_npc :: NPC where
  "arrived_npc = npc0\<lparr>npc_state := arrived, npc_x := 210, npc_y := 90, atStop := True,
     nearestStop := Some stopB, finalDestinationStop := Some stopB, destinationZone := zoneB,
     walkingPath := None, walkingPathIndex := None\<rparr>"

definition stranded :: NPC where
  "stranded = npc0\<lparr>npc_state := waiting, npc_x := 60, npc_y := 90, waitTime := 5,
     walkingPath := None, walkingPathIndex := None\<rparr>"

definition state_arrived :: "npc_ref list \<Rightarrow> GameState" where
  "state_arrived rs = (state_with [bus_with []])\<lparr>npcs := rs,
     npc_heap := (\<lambda>_. npc0)(3 := arrived_npc, 7 := stranded)\<rparr>"

text \<open>
  C8. With NPC 7 behind it in \<^verbatim>\<open>state.npcs\<close>, the arrived NPC 3 is still there after the
  next call of \<^verbatim>\<open>updateNPCs\<close>: the call returns while it handles NPC 7. The call after
  that removes it. Alone in \<^verbatim>\<open>state.npcs\<close>, NPC 3 is removed by the next call.
\<close>

theorem arrived_npc_not_removed:
  "(\<exists>pm' s'. updateNPCs pm_small index_AB 16 (state_arrived [3, 7]) = Inr (pm', s') \<and>
       npcs s' = [3, 7] \<and> npc_state (npc_heap s' 3) = arrived \<and>
       (\<exists>pm'' s''. updateNPCs pm' index_AB 16 s' = Inr (pm'', s'') \<and> npcs s'' = [7])) \<and>
   (\<exists>pm' s'. updateNPCs pm_small index_AB 16 (state_arrived [3]) = Inr (pm', s') \<and>
       npcs s' = [])"
proof -
  have 1: "updateNPCs pm_small index_AB 16 (state_arrived [3, 7]) =
             Inr (pm_small, upd 7 (\<lambda>n. n\<lparr>nearestStop := Some stopA, atStop := True\<rparr>)
                    (upd 7 (\<lambda>n. n\<lparr>waitTime := waitTime n + 16 / 1000\<rparr>) (state_arrived [3, 7])))"
    using zoneDistance_zone0
    by (simp add: updateNPCs_def state_arrived_def state_with_def state0_def updateNPC_def
        stranded_def npc0_def waitAtStop_def upd_def findNearestStop_atA nearestToZone_zone0
        Let_def)
  have 2: "\<exists>pm'' s''. updateNPCs pm_small index_AB 16
             (upd 7 (\<lambda>n. n\<lparr>nearestStop := Some stopA, atStop := True\<rparr>)
                (upd 7 (\<lambda>n. n\<lparr>waitTime := waitTime n + 16 / 1000\<rparr>) (state_arrived [3, 7])))
           = Inr (pm'', s'') \<and> npcs s'' = [7]"
    by (simp add: updateNPCs_def state_arrived_def state_with_def state0_def updateNPC_def
        stranded_def npc0_def waitAtStop_def upd_def arrived_npc_def removeAt_def
        NPC_MAX_WAIT_TIME_def Let_def numeral_2_eq_2)
  have 3: "\<exists>pm' s'. updateNPCs pm_small index_AB 16 (state_arrived [3]) = Inr (pm', s') \<and>
       npcs s' = []"
    by (simp add: updateNPCs_def state_arrived_def state_with_def state0_def updateNPC_def
        arrived_npc_def npc0_def removeAt_def Let_def)
  have 4: "npcs (upd 7 (\<lambda>n. n\<lparr>nearestStop := Some stopA, atStop := True\<rparr>)
                (upd 7 (\<lambda>n. n\<lparr>waitTime := waitTime n + 16 / 1000\<rparr>) (state_arrived [3, 7]))) = [3, 7]"
      "npc_state (npc_heap (upd 7 (\<lambda>n. n\<lparr>nearestStop := Some stopA, atStop := True\<rparr>)
                (upd 7 (\<lambda>n. n\<lparr>waitTime := waitTime n + 16 / 1000\<rparr>) (state_arrived [3, 7]))) 3) = arrived"
    by (simp_all add: upd_def state_arrived_def arrived_npc_def)
  from 1 2 3 4 show ?thesis by blast
qed

end
